theory Spec2Isabelle
  imports Main "HOL-Library.AList" "HOL-Library.Char_ord" "HOL-Library.List_Lexorder"
    "HOL-Library.Multiset"
begin

section \<open>Python strings\<close>

text \<open>
  Strings are lists of characters. The string operations of the source that the model
  needs (\<^verbatim>\<open>str.lower\<close>, \<^verbatim>\<open>str.strip\<close>, \<^verbatim>\<open>str.splitlines\<close>,
  \<^verbatim>\<open>str.startswith\<close>, \<^verbatim>\<open>str.split(":", 1)\<close>, \<^verbatim>\<open>str.join\<close>) are written
  out for ASCII text: a character above 127 is neither white space, nor a line boundary,
  nor an upper-case letter.
\<close>

definition py_isspace :: "char \<Rightarrow> bool" where
  "py_isspace c = ((9 \<le> (of_char c :: nat) \<and> (of_char c :: nat) \<le> 13)
     \<or> (28 \<le> (of_char c :: nat) \<and> (of_char c :: nat) \<le> 32))"

definition py_islinebreak :: "char \<Rightarrow> bool" where
  "py_islinebreak c = ((10 \<le> (of_char c :: nat) \<and> (of_char c :: nat) \<le> 13)
     \<or> (28 \<le> (of_char c :: nat) \<and> (of_char c :: nat) \<le> 30))"

definition lower_char :: "char \<Rightarrow> char" where
  "lower_char c = (if 65 \<le> (of_char c :: nat) \<and> (of_char c :: nat) \<le> 90
     then char_of ((of_char c :: nat) + 32) else c)"

definition lower :: "string \<Rightarrow> string" where
  "lower s = map lower_char s"

definition strip :: "string \<Rightarrow> string" where
  "strip s = rev (dropWhile py_isspace (rev (dropWhile py_isspace s)))"

definition startswith :: "string \<Rightarrow> string \<Rightarrow> bool" where
  "startswith s p = (take (length p) s = p)"

text \<open>
  \<^verbatim>\<open>splitlines\<close>: the text is cut at every line boundary, a carriage return followed
  by a line feed is one boundary, and a last line without a boundary is kept when it is
  not empty. The first argument is the line read so far.
\<close>

fun splitlines_from :: "string \<Rightarrow> string \<Rightarrow> string list" where
  "splitlines_from cur [] = (if cur = [] then [] else [cur])"
| "splitlines_from cur [c] =
     (if py_islinebreak c then [cur] else [cur @ [c]])"
| "splitlines_from cur (c # d # cs) =
     (if py_islinebreak c then
        (if c = CHR 0x0D \<and> d = CHR 0x0A then cur # splitlines_from [] cs
         else cur # splitlines_from [] (d # cs))
      else splitlines_from (cur @ [c]) (d # cs))"

definition splitlines :: "string \<Rightarrow> string list" where
  "splitlines s = splitlines_from [] s"

text \<open>
  \<^verbatim>\<open>line.split(":", 1)[1]\<close>: what follows the first colon. The source reads index 1
  only on a line that starts with a marker ending in a colon, so the index is in range;
  on a line without a colon the model returns the empty string.
\<close>

definition after_colon :: "string \<Rightarrow> string" where
  "after_colon s = drop 1 (dropWhile (\<lambda>c. c \<noteq> CHR '':'') s)"

fun join :: "string \<Rightarrow> string list \<Rightarrow> string" where
  "join sep [] = []"
| "join sep [x] = x"
| "join sep (x # y # ys) = x @ sep @ join sep (y # ys)"

text \<open>
  Python's \<^verbatim>\<open>a or b\<close> on an optional string: \<^verbatim>\<open>None\<close> and the empty string are
  falsy.
\<close>

definition truthy :: "string option \<Rightarrow> bool" where
  "truthy a = (case a of None \<Rightarrow> False | Some s \<Rightarrow> s \<noteq> [])"

definition py_or :: "string option \<Rightarrow> string option \<Rightarrow> string option" where
  "py_or a b = (if truthy a then a else b)"

definition or_empty :: "string option \<Rightarrow> string" where
  "or_empty a = (case a of None \<Rightarrow> [] | Some s \<Rightarrow> s)"


section \<open>The gateway: \<^verbatim>\<open>CodexRunner.run\<close>\<close>

text \<open>
  A reviewer's answer as \<^verbatim>\<open>read_agent_output\<close> decodes it: a JSON object whose
  \<^verbatim>\<open>status\<close> and \<^verbatim>\<open>next_actor\<close> are strings or absent and whose
  \<^verbatim>\<open>issues\<close> is a list of strings (absent: the empty list). JSON decoding itself
  is outside the model.
\<close>

record review =
  rv_status :: "string option"
  rv_issues :: "string list"
  rv_summary :: "string option"
  rv_next_actor :: "string option"

text \<open>
  What the external process does at one invocation: its exit status, everything it
  printed, the decoded last message (\<open>None\<close>: \<^verbatim>\<open>read_agent_output\<close> raises
  \<^verbatim>\<open>InvalidAgentResponseError\<close>), and the paths that do not exist or hold only
  white space once the process is over. A gateway gives the response of the n-th
  invocation of a run.
\<close>

record response =
  return_code :: int
  raw_output :: string
  decoded :: "review option"
  absent :: "string list"

type_synonym gateway = "nat \<Rightarrow> response"

record codex_run_result =
  session_id :: "string option"
  last_message :: "review option"

fun extract_session_id_lines :: "string list \<Rightarrow> string option" where
  "extract_session_id_lines [] = None"
| "extract_session_id_lines (l # ls) =
     (let line = strip l in
      if startswith (lower line) ''session id:'' then Some (strip (after_colon line))
      else if startswith (lower line) ''thread id:'' then Some (strip (after_colon line))
      else extract_session_id_lines ls)"

definition extract_session_id :: "string \<Rightarrow> string option" where
  "extract_session_id raw = extract_session_id_lines (splitlines raw)"

text \<open>
  \<^verbatim>\<open>CodexRunner.run\<close> on the response of the process: \<open>None\<close> is
  \<^verbatim>\<open>subprocess.CalledProcessError\<close>.
\<close>

definition codex_run :: "response \<Rightarrow> string option \<Rightarrow> codex_run_result option" where
  "codex_run r resume_session =
     (if return_code r \<noteq> 0 then None
      else Some \<lparr>session_id = py_or (extract_session_id (raw_output r)) resume_session,
                 last_message = decoded r\<rparr>)"


section \<open>The execution flow: \<^verbatim>\<open>Workflow._execute_agent_flow\<close>\<close>

datatype role = Agent | Manager | QA

text \<open>
  The prompt of an invocation. The agent's prompt is a text. A reviewer's prompt is built
  by \<^verbatim>\<open>manager_agent.build_prompt\<close> or \<^verbatim>\<open>qa_agent.build_prompt\<close> from
  templates that are not part of the model; the ledger keeps the argument that varies from
  one invocation to the next: the QA review handed to the manager, the context notes
  handed to QA.
\<close>

datatype prompt =
    Agent_prompt string
  | Manager_prompt "review option"
  | QA_prompt "string option"

datatype gateway_outcome = Gateway_failed | Gateway_ok "string option"

text \<open>
  One entry per call of \<^verbatim>\<open>CodexRunner.run\<close>, in call order: who was invoked, the
  attempt number its label is built from, the prompt, the \<^verbatim>\<open>resume_session\<close>
  argument, and whether the process failed or which session its result carries.
  The n-th entry holds the invocation that the gateway answered with its n-th response.
\<close>

record invocation =
  inv_role :: role
  inv_attempt :: nat
  inv_prompt :: prompt
  inv_resume :: "string option"
  inv_outcome :: gateway_outcome

type_synonym ledger = "invocation list"

definition outcome_of :: "codex_run_result option \<Rightarrow> gateway_outcome" where
  "outcome_of res = (case res of None \<Rightarrow> Gateway_failed | Some r \<Rightarrow> Gateway_ok (session_id r))"

text \<open>The entry of the invocation that the gateway answers with its n-th response.\<close>

definition entry ::
  "gateway \<Rightarrow> nat \<Rightarrow> role \<Rightarrow> nat \<Rightarrow> prompt \<Rightarrow> string option \<Rightarrow> invocation" where
  "entry gw n r attempt p resume_session =
     \<lparr>inv_role = r, inv_attempt = attempt, inv_prompt = p, inv_resume = resume_session,
      inv_outcome = outcome_of (codex_run (gw n) resume_session)\<rparr>"

definition invoke ::
  "gateway \<Rightarrow> ledger \<Rightarrow> role \<Rightarrow> nat \<Rightarrow> prompt \<Rightarrow> string option
    \<Rightarrow> codex_run_result option \<times> ledger" where
  "invoke gw led r attempt p resume_session =
     (codex_run (gw (length led)) resume_session,
      led @ [entry gw (length led) r attempt p resume_session])"

datatype workflow_error =
    Agent_execution_failed nat
  | Manager_execution_failed
  | Manager_invalid_json
  | Manager_retries_exhausted
  | Manager_validation_failed nat "string list"
  | QA_execution_failed
  | QA_invalid_json
  | QA_retries_exhausted

text \<open>
  The parameters of one call of \<^verbatim>\<open>_execute_agent_flow\<close>, with the three retry
  limits of the workflow object (each \<^verbatim>\<open>max(0, ...)\<close> of a command-line argument).
  Paths are strings; a path that is present is truthy.
\<close>

record flow_config =
  agent_retry_limit :: nat
  manager_retry_limit :: nat
  qa_retry_limit :: nat
  spec_name :: string
  deliverables :: "string list"
  initial_prompt :: string
  task_id :: "string option"
  task_source :: "string option"
  task_dir :: "string option"
  enable_qa :: bool
  qa_label :: "string option"

abbreviation (input) nl :: string where
  "nl \<equiv> [CHR 0x0A]"

definition missing_deliverables :: "response \<Rightarrow> string list \<Rightarrow> string list" where
  "missing_deliverables r ds = filter (\<lambda>p. p \<in> set (absent r)) ds"

definition build_missing_deliverables_prompt :: "string \<Rightarrow> string list \<Rightarrow> string" where
  "build_missing_deliverables_prompt original_prompt missing =
     ''You did not write the required deliverables to the repository.'' @ nl
     @ ''The following files are missing or empty:'' @ nl
     @ join nl (map (\<lambda>path. ''- '' @ path) missing) @ nl @ nl
     @ ''Resume the work and update each file directly in the repo so it matches the original instructions.'' @ nl
     @ ''Do not return the content inline; write the files exactly as required and confirm completion.'' @ nl @ nl
     @ ''Original instructions:'' @ nl
     @ original_prompt"

definition build_retry_prompt :: "string \<Rightarrow> string list \<Rightarrow> string" where
  "build_retry_prompt original_prompt issues =
     (let joined = join nl (map (\<lambda>issue. ''- '' @ issue) issues);
          issue_lines = (if joined = [] then ''- No details provided.'' else joined)
      in ''The quality assurance manager reported the following issues:'' @ nl
         @ issue_lines @ nl @ nl
         @ ''Please correct the deliverables so they fully satisfy the original instructions below. ''
         @ ''Regenerate the complete content rather than incremental edits.'' @ nl @ nl
         @ ''Original instructions:'' @ nl
         @ original_prompt)"

definition format_issue_list :: "string list \<Rightarrow> string" where
  "format_issue_list issues =
     (let formatted = join nl (map (\<lambda>issue. ''- '' @ issue) (filter (\<lambda>issue. issue \<noteq> []) issues))
      in if formatted = [] then ''- No details provided.'' else formatted)"

text \<open>
  \<^verbatim>\<open>_validate_backlog_resource_constraints\<close> returns the empty list ("Resource planner
  support removed").
\<close>

definition validate_backlog_resource_constraints :: "string list" where
  "validate_backlog_resource_constraints = []"

text \<open>
  The guard \<^verbatim>\<open>enable_qa and task_id and task_source and qa_label and task_dir\<close>.
\<close>

definition qa_active :: "flow_config \<Rightarrow> bool" where
  "qa_active c = (enable_qa c \<and> truthy (task_id c) \<and> task_source c \<noteq> None
     \<and> truthy (qa_label c) \<and> task_dir c \<noteq> None)"

definition status_of :: "review \<Rightarrow> string" where
  "status_of rv = lower (or_empty (rv_status rv))"

subsection \<open>One reviewer invocation\<close>

text \<open>
  \<^verbatim>\<open>_run_manager_validation\<close> and \<^verbatim>\<open>_run_qa_review\<close> raise either what the
  gateway raised or \<^verbatim>\<open>InvalidAgentResponseError\<close>, which carries the run result.
\<close>

datatype review_failure = Called_process_error | Invalid_agent_response codex_run_result

definition read_review ::
  "codex_run_result option \<Rightarrow> review_failure + review \<times> codex_run_result" where
  "read_review res =
     (case res of
        None \<Rightarrow> Inl Called_process_error
      | Some r \<Rightarrow> (case last_message r of
                     None \<Rightarrow> Inl (Invalid_agent_response r)
                   | Some rv \<Rightarrow> Inr (rv, r)))"

definition run_manager_validation ::
  "gateway \<Rightarrow> nat \<Rightarrow> string option \<Rightarrow> review option \<Rightarrow> ledger
    \<Rightarrow> (review_failure + review \<times> codex_run_result) \<times> ledger" where
  "run_manager_validation gw attempt resume_session qa_review led =
     (case invoke gw led Manager attempt (Manager_prompt qa_review) resume_session of
        (res, led') \<Rightarrow> (read_review res, led'))"

definition run_qa_review ::
  "gateway \<Rightarrow> nat \<Rightarrow> string option \<Rightarrow> string option \<Rightarrow> ledger
    \<Rightarrow> (review_failure + review \<times> codex_run_result) \<times> ledger" where
  "run_qa_review gw attempt resume_session context_notes led =
     (case invoke gw led QA attempt (QA_prompt context_notes) resume_session of
        (res, led') \<Rightarrow> (read_review res, led'))"

subsection \<open>The retry loops of the reviewers\<close>

text \<open>
  \<^verbatim>\<open>for retry_index in range(max_attempts)\<close> with \<^verbatim>\<open>max_attempts\<close> the retry
  limit plus one; the loop variable is an argument. The last equation of the source,
  after the loop, is the first branch here.
\<close>

function manager_retries ::
  "flow_config \<Rightarrow> gateway \<Rightarrow> nat \<Rightarrow> review option \<Rightarrow> nat \<Rightarrow> string option \<Rightarrow> ledger
    \<Rightarrow> (workflow_error + review \<times> codex_run_result) \<times> ledger" where
  "manager_retries c gw attempt qa_review retry_index session led =
     (if manager_retry_limit c + 1 \<le> retry_index then (Inl Manager_retries_exhausted, led)
      else (case run_manager_validation gw attempt session qa_review led of
              (Inr rr, led') \<Rightarrow> (Inr rr, led')
            | (Inl Called_process_error, led') \<Rightarrow>
                (if manager_retry_limit c + 1 \<le> retry_index + 1
                 then (Inl Manager_execution_failed, led')
                 else manager_retries c gw attempt qa_review (retry_index + 1) None led')
            | (Inl (Invalid_agent_response res), led') \<Rightarrow>
                (if manager_retry_limit c + 1 \<le> retry_index + 1
                 then (Inl Manager_invalid_json, led')
                 else manager_retries c gw attempt qa_review (retry_index + 1)
                        (session_id res) led')))"
  by pat_completeness auto
termination
  by (relation "measure (\<lambda>(c, gw, attempt, qa_review, retry_index, session, led).
        manager_retry_limit c + 1 - retry_index)") auto

definition perform_manager_validation_with_retries ::
  "flow_config \<Rightarrow> gateway \<Rightarrow> nat \<Rightarrow> string option \<Rightarrow> review option \<Rightarrow> ledger
    \<Rightarrow> (workflow_error + review \<times> codex_run_result) \<times> ledger" where
  "perform_manager_validation_with_retries c gw attempt resume_session qa_review led =
     manager_retries c gw attempt qa_review 0 resume_session led"

function qa_retries ::
  "flow_config \<Rightarrow> gateway \<Rightarrow> nat \<Rightarrow> string option \<Rightarrow> nat \<Rightarrow> string option \<Rightarrow> ledger
    \<Rightarrow> (workflow_error + review \<times> codex_run_result \<times> nat) \<times> ledger" where
  "qa_retries c gw attempt context_notes retry_index session led =
     (if qa_retry_limit c + 1 \<le> retry_index then (Inl QA_retries_exhausted, led)
      else (let current_attempt = (if retry_index = 0 then attempt else attempt + retry_index)
            in case run_qa_review gw current_attempt session context_notes led of
              (Inr (rv, res), led') \<Rightarrow> (Inr (rv, res, current_attempt), led')
            | (Inl Called_process_error, led') \<Rightarrow>
                (if qa_retry_limit c + 1 \<le> retry_index + 1
                 then (Inl QA_execution_failed, led')
                 else qa_retries c gw attempt context_notes (retry_index + 1) None led')
            | (Inl (Invalid_agent_response res), led') \<Rightarrow>
                (if qa_retry_limit c + 1 \<le> retry_index + 1
                 then (Inl QA_invalid_json, led')
                 else qa_retries c gw attempt context_notes (retry_index + 1)
                        (session_id res) led')))"
  by pat_completeness auto
termination
  by (relation "measure (\<lambda>(c, gw, attempt, context_notes, retry_index, session, led).
        qa_retry_limit c + 1 - retry_index)") auto

definition perform_qa_review_with_retries ::
  "flow_config \<Rightarrow> gateway \<Rightarrow> nat \<Rightarrow> string option \<Rightarrow> string option \<Rightarrow> ledger
    \<Rightarrow> (workflow_error + review \<times> codex_run_result \<times> nat) \<times> ledger" where
  "perform_qa_review_with_retries c gw attempt resume_session context_notes led =
     qa_retries c gw attempt context_notes 0 resume_session led"

subsection \<open>The manager loop\<close>

text \<open>
  How one pass through the body of the agent loop ends once the agent's invocation has
  succeeded: the flow returns (\<^verbatim>\<open>return\<close>), the agent loop goes on to its next
  attempt with a new prompt (\<^verbatim>\<open>continue\<close>, or \<^verbatim>\<open>break\<close> out of the manager
  loop), or a \<^verbatim>\<open>WorkflowError\<close> is raised.
\<close>

datatype cycle_exit = Validated | Retry_agent string | Failed workflow_error

text \<open>
  \<^verbatim>\<open>while True\<close> of \<^verbatim>\<open>_execute_agent_flow\<close>. Its variables are the arguments:
  \<^verbatim>\<open>manager_attempt\<close>, \<^verbatim>\<open>manager_session\<close>, \<^verbatim>\<open>current_qa_review\<close>,
  \<^verbatim>\<open>qa_session\<close>, \<^verbatim>\<open>qa_follow_counter\<close>.
\<close>

function manager_cycles ::
  "flow_config \<Rightarrow> gateway \<Rightarrow> nat \<Rightarrow> string option \<Rightarrow> review option \<Rightarrow> string option \<Rightarrow> nat
    \<Rightarrow> ledger \<Rightarrow> cycle_exit \<times> ledger" where
  "manager_cycles c gw manager_attempt manager_session current_qa_review qa_session
       qa_follow_counter led =
     (case perform_manager_validation_with_retries c gw manager_attempt manager_session
             current_qa_review led of
        (Inl e, led1) \<Rightarrow> (Failed e, led1)
      | (Inr (rv, manager_result), led1) \<Rightarrow>
          (if status_of rv = ''pass'' then
             (if spec_name c = ''Planner'' \<and> validate_backlog_resource_constraints \<noteq> []
              then (Retry_agent (build_retry_prompt (initial_prompt c)
                      validate_backlog_resource_constraints), led1)
              else (Validated, led1))
           else
             (let issues = rv_issues rv;
                  next_actor = lower (or_empty (py_or (rv_next_actor rv) (Some ''agent'')))
              in if manager_retry_limit c < manager_attempt
                 then (Failed (Manager_validation_failed manager_attempt issues), led1)
                 else if next_actor = ''qa'' \<and> qa_active c then
                   (case perform_qa_review_with_retries c gw (qa_follow_counter + 1) qa_session
                           (Some (format_issue_list issues)) led1 of
                      (Inl e, led2) \<Rightarrow> (Failed e, led2)
                    | (Inr (qa_rv, qa_result, counter), led2) \<Rightarrow>
                        (if status_of qa_rv \<noteq> ''pass'' then
                           (Retry_agent (build_retry_prompt (initial_prompt c)
                              (if rv_issues qa_rv \<noteq> [] then rv_issues qa_rv else issues)), led2)
                         else manager_cycles c gw (manager_attempt + 1)
                                (session_id manager_result) (Some qa_rv)
                                (session_id qa_result) counter led2))
                 else (Retry_agent (build_retry_prompt (initial_prompt c) issues), led1))))"
  by pat_completeness auto
termination
  by (relation "measure (\<lambda>(c, gw, manager_attempt, manager_session, current_qa_review,
        qa_session, qa_follow_counter, led). manager_retry_limit c + 1 - manager_attempt)") auto

subsection \<open>The body of the agent loop after a successful invocation\<close>

text \<open>
  The first QA review of an attempt, made when QA is enabled for the work item: it ends
  with an error, with a verdict other than pass (its issues go to the agent), or with
  what the manager loop starts from: the review, the QA session and the QA attempt
  index. Without QA these are \<^verbatim>\<open>None\<close>, \<^verbatim>\<open>None\<close> and 0.
\<close>

datatype qa_exit =
    QA_raised workflow_error
  | QA_rejected "string list"
  | QA_passed "review option" "string option" nat

definition first_qa_review :: "flow_config \<Rightarrow> gateway \<Rightarrow> ledger \<Rightarrow> qa_exit \<times> ledger" where
  "first_qa_review c gw led =
     (if qa_active c then
        (case perform_qa_review_with_retries c gw 1 None None led of
           (Inl e, led') \<Rightarrow> (QA_raised e, led')
         | (Inr (qa_rv, qa_result, qa_attempt_index), led') \<Rightarrow>
             (if status_of qa_rv \<noteq> ''pass'' then (QA_rejected (rv_issues qa_rv), led')
              else (QA_passed (Some qa_rv) (session_id qa_result) qa_attempt_index, led')))
      else (QA_passed None None 0, led))"

text \<open>
  The acceptance check on the deliverables and the reviews that follow it. The first
  argument is the response of the agent's invocation: the check reads the files as that
  invocation left them.
\<close>

definition acceptance_and_review ::
  "flow_config \<Rightarrow> gateway \<Rightarrow> response \<Rightarrow> ledger \<Rightarrow> cycle_exit \<times> ledger" where
  "acceptance_and_review c gw agent_response led =
     (let missing = missing_deliverables agent_response (deliverables c) in
      if missing \<noteq> [] then
        (Retry_agent (build_missing_deliverables_prompt (initial_prompt c) missing), led)
      else
        (case first_qa_review c gw led of
           (QA_raised e, led') \<Rightarrow> (Failed e, led')
         | (QA_rejected issues, led') \<Rightarrow>
             (Retry_agent (build_retry_prompt (initial_prompt c) issues), led')
         | (QA_passed qa_review qa_session qa_attempt_index, led') \<Rightarrow>
             manager_cycles c gw 1 None qa_review qa_session
               (if enable_qa c then max qa_attempt_index 1 else 0) led'))"

subsection \<open>The agent loop\<close>

text \<open>
  The flow returns \<^verbatim>\<open>None\<close> at two places: after the manager's pass, and at the end
  of the function when the agent loop has used its last attempt without a raise. A caller
  cannot tell them apart; the model can.
\<close>

datatype flow_outcome = Accepted | Attempts_spent | Raised workflow_error

text \<open>
  \<^verbatim>\<open>for attempt in range(1, max_agent_attempts + 1)\<close>, with the variables
  \<^verbatim>\<open>prompt_text\<close> and \<^verbatim>\<open>agent_session\<close> as arguments.
\<close>

function agent_attempts ::
  "flow_config \<Rightarrow> gateway \<Rightarrow> nat \<Rightarrow> string \<Rightarrow> string option \<Rightarrow> ledger
    \<Rightarrow> flow_outcome \<times> ledger" where
  "agent_attempts c gw attempt prompt_text agent_session led =
     (if agent_retry_limit c + 1 < attempt then (Attempts_spent, led)
      else (case invoke gw led Agent attempt (Agent_prompt prompt_text) agent_session of
              (None, led1) \<Rightarrow>
                (if attempt = agent_retry_limit c + 1
                 then (Raised (Agent_execution_failed attempt), led1)
                 else agent_attempts c gw (attempt + 1) prompt_text None led1)
            | (Some agent_result, led1) \<Rightarrow>
                (case acceptance_and_review c gw (gw (length led)) led1 of
                   (Validated, led2) \<Rightarrow> (Accepted, led2)
                 | (Failed e, led2) \<Rightarrow> (Raised e, led2)
                 | (Retry_agent prompt_text', led2) \<Rightarrow>
                     agent_attempts c gw (attempt + 1) prompt_text'
                       (session_id agent_result) led2)))"
  by pat_completeness auto
termination
  by (relation "measure (\<lambda>(c, gw, attempt, prompt_text, agent_session, led).
        agent_retry_limit c + 2 - attempt)") auto

definition execute_agent_flow :: "flow_config \<Rightarrow> gateway \<Rightarrow> flow_outcome \<times> ledger" where
  "execute_agent_flow c gw = agent_attempts c gw 1 (initial_prompt c) None []"


subsection \<open>Reading the ledger\<close>

text \<open>
  The session an invocation leaves behind: the session of its result, and none when the
  process failed.
\<close>

definition token_of :: "gateway_outcome \<Rightarrow> string option" where
  "token_of out = (case out of Gateway_failed \<Rightarrow> None | Gateway_ok s \<Rightarrow> s)"

text \<open>
  The sessions the flow holds after a ledger, per role. An invocation replaces the
  session of its own role; an invocation of the agent also drops the sessions of both
  reviewers, whose variables the body of the agent loop sets anew.
\<close>

definition note_invocation :: "(role \<Rightarrow> string option) \<Rightarrow> invocation \<Rightarrow> role \<Rightarrow> string option" where
  "note_invocation held x =
     (if inv_role x = Agent then (\<lambda>r. if r = Agent then token_of (inv_outcome x) else None)
      else held(inv_role x := token_of (inv_outcome x)))"

definition held_sessions :: "ledger \<Rightarrow> role \<Rightarrow> string option" where
  "held_sessions led = foldl note_invocation (\<lambda>r. None) led"

definition session_discipline :: "ledger \<Rightarrow> bool" where
  "session_discipline led =
     (\<forall>j < length led. inv_resume (led ! j) = held_sessions (take j led) (inv_role (led ! j)))"

text \<open>The entries strictly between two positions of a ledger.\<close>

definition between :: "'a list \<Rightarrow> nat \<Rightarrow> nat \<Rightarrow> 'a list" where
  "between xs i j = take (j - Suc i) (drop (Suc i) xs)"

definition agent_count :: "ledger \<Rightarrow> nat" where
  "agent_count led = length (filter (\<lambda>x. inv_role x = Agent) led)"


section \<open>The stage pipelines: \<^verbatim>\<open>_run_bug_pipeline\<close> and \<^verbatim>\<open>_run_feedback_pipeline\<close>\<close>

text \<open>
  The stored state of a bug or feedback item (\<^verbatim>\<open>state.json\<close>). The field
  \<open>pending_stage\<close> is the empty string when the stored value is falsy, and
  \<open>awaiting_human\<close> is the truth value of the stored one. History entries are kept
  without their time stamp.
\<close>

record stage_state =
  pending_stage :: string
  awaiting_human :: bool
  awaiting_reason :: "string option"
  history :: "(string \<times> string) list"

text \<open>
  The result file of a stage as \<^verbatim>\<open>_read_json\<close> finds it: missing, not JSON, or a
  JSON object with its \<^verbatim>\<open>status\<close> field (a string, or absent).
\<close>

datatype result_file = File_missing | File_not_json | File_status "string option"

datatype stage_error = Result_file_missing | Result_file_invalid

definition update_bug_state_after_stage ::
  "string \<Rightarrow> (string \<Rightarrow> result_file) \<Rightarrow> stage_state \<Rightarrow> stage_error + stage_state" where
  "update_bug_state_after_stage stage files state =
     (if stage \<notin> set [''intake'', ''triage'', ''repro''] then Inl Result_file_missing
      else (case files stage of
              File_missing \<Rightarrow> Inl Result_file_missing
            | File_not_json \<Rightarrow> Inl Result_file_invalid
            | File_status st \<Rightarrow>
                (let status = lower (or_empty st);
                     state1 = state\<lparr>history := history state @ [(stage, status)],
                                    awaiting_reason := None, awaiting_human := False\<rparr>
                 in Inr
                  (if stage = ''intake'' then
                     (if status = ''needs_info''
                      then state1\<lparr>pending_stage := ''intake'', awaiting_human := True,
                                   awaiting_reason := Some ''needs_info''\<rparr>
                      else state1\<lparr>pending_stage := ''triage''\<rparr>)
                   else if stage = ''triage'' then
                     (if status = ''needs_info''
                      then state1\<lparr>pending_stage := ''triage'', awaiting_human := True,
                                   awaiting_reason := Some ''needs_info''\<rparr>
                      else if status \<in> set [''duplicate'', ''rejected'']
                      then state1\<lparr>pending_stage := ''done''\<rparr>
                      else if status = ''triaged''
                      then state1\<lparr>pending_stage := ''repro''\<rparr>
                      else state1\<lparr>pending_stage := ''repro''\<rparr>)
                   else if stage = ''repro'' then
                     (if status = ''blocked''
                      then state1\<lparr>pending_stage := ''repro'', awaiting_human := True,
                                   awaiting_reason := Some ''blocked''\<rparr>
                      else state1\<lparr>pending_stage := ''done''\<rparr>)
                   else state1\<lparr>pending_stage := ''done''\<rparr>))))"

definition update_feedback_state_after_stage ::
  "string \<Rightarrow> (string \<Rightarrow> result_file) \<Rightarrow> stage_state \<Rightarrow> stage_error + stage_state" where
  "update_feedback_state_after_stage stage files state =
     (if stage \<notin> set [''intake'', ''review'', ''plan''] then Inl Result_file_missing
      else (case files stage of
              File_missing \<Rightarrow> Inl Result_file_missing
            | File_not_json \<Rightarrow> Inl Result_file_invalid
            | File_status st \<Rightarrow>
                (let status = lower (or_empty st);
                     state1 = state\<lparr>history := history state @ [(stage, status)],
                                    awaiting_reason := None, awaiting_human := False\<rparr>
                 in Inr
                  (if stage = ''intake'' then
                     (if status = ''needs_info''
                      then state1\<lparr>pending_stage := ''intake'', awaiting_human := True,
                                   awaiting_reason := Some ''needs_info''\<rparr>
                      else state1\<lparr>pending_stage := ''review''\<rparr>)
                   else if stage = ''review'' then
                     (if status = ''needs_info''
                      then state1\<lparr>pending_stage := ''review'', awaiting_human := True,
                                   awaiting_reason := Some ''needs_info''\<rparr>
                      else if status \<in> set [''rejected'', ''duplicate'']
                      then state1\<lparr>pending_stage := ''done''\<rparr>
                      else if status = ''reviewed''
                      then state1\<lparr>pending_stage := ''plan''\<rparr>
                      else state1\<lparr>pending_stage := ''plan''\<rparr>)
                   else if stage = ''plan'' then
                     (if status = ''blocked''
                      then state1\<lparr>pending_stage := ''plan'', awaiting_human := True,
                                   awaiting_reason := Some ''blocked''\<rparr>
                      else state1\<lparr>pending_stage := ''done''\<rparr>)
                   else state1\<lparr>pending_stage := ''done''\<rparr>))))"

text \<open>
  What one pass of a pipeline finds around an item: which supporting prompts are
  registered, whether \<^verbatim>\<open>submission.json\<close> and \<^verbatim>\<open>intake.json\<close> can be read,
  the result files, the gateway, and the parameters of the flow of each stage (prompt
  text, deliverables, retry limits).
\<close>

record item_env =
  prompt_registered :: "string \<Rightarrow> bool"
  has_submission :: bool
  has_intake :: bool
  result_files :: "string \<Rightarrow> result_file"
  env_gateway :: gateway
  stage_flow :: "string \<Rightarrow> flow_config"

definition bug_stage_to_prompt :: "string \<Rightarrow> string option" where
  "bug_stage_to_prompt stage =
     map_of [(''intake'', ''bug_intake''), (''triage'', ''bug_triage''), (''repro'', ''bug_repro'')] stage"

definition feedback_stage_to_prompt :: "string \<Rightarrow> string option" where
  "feedback_stage_to_prompt stage =
     map_of [(''intake'', ''feedback_intake''), (''review'', ''feedback_review''),
             (''plan'', ''feedback_plan'')] stage"

text \<open>
  \<^verbatim>\<open>_build_bug_context\<close> and \<^verbatim>\<open>_build_feedback_context\<close> return \<^verbatim>\<open>None\<close>
  when the submission (for intake) or the intake result (for a later stage) cannot be
  read.
\<close>

definition context_available :: "item_env \<Rightarrow> string \<Rightarrow> bool" where
  "context_available env stage = (if stage = ''intake'' then has_submission env else has_intake env)"

text \<open>
  The body of the loop of a pipeline for one item. The result is the state the pass
  leaves stored and, when the execution flow was called, the stage it ran with the ledger
  of that flow. Every \<^verbatim>\<open>continue\<close> before the flow leaves the state as it is and
  invokes nothing.
\<close>

definition run_item ::
  "(string \<Rightarrow> string option)
    \<Rightarrow> (string \<Rightarrow> (string \<Rightarrow> result_file) \<Rightarrow> stage_state \<Rightarrow> stage_error + stage_state)
    \<Rightarrow> item_env \<Rightarrow> stage_state \<Rightarrow> stage_state \<times> (string \<times> ledger) option" where
  "run_item stage_to_prompt update env state =
     (let stage = (if pending_stage state = [] then ''intake'' else pending_stage state) in
      if stage = ''done'' then (state, None)
      else if awaiting_human state then (state, None)
      else (case stage_to_prompt stage of
              None \<Rightarrow> (state, None)
            | Some prompt_key \<Rightarrow>
                if \<not> prompt_registered env prompt_key then (state, None)
                else if \<not> context_available env stage then (state, None)
                else (case execute_agent_flow
                             ((stage_flow env stage)\<lparr>enable_qa := False, qa_label := None\<rparr>)
                             (env_gateway env) of
                        (Raised e, led) \<Rightarrow> (state, Some (stage, led))
                      | (Accepted, led) \<Rightarrow>
                          (case update stage (result_files env) state of
                             Inl e \<Rightarrow> (state, Some (stage, led))
                           | Inr state' \<Rightarrow> (state', Some (stage, led)))
                      | (Attempts_spent, led) \<Rightarrow>
                          (case update stage (result_files env) state of
                             Inl e \<Rightarrow> (state, Some (stage, led))
                           | Inr state' \<Rightarrow> (state', Some (stage, led))))))"

definition run_bug_item :: "item_env \<Rightarrow> stage_state \<Rightarrow> stage_state \<times> (string \<times> ledger) option" where
  "run_bug_item = run_item bug_stage_to_prompt update_bug_state_after_stage"

definition run_feedback_item ::
  "item_env \<Rightarrow> stage_state \<Rightarrow> stage_state \<times> (string \<times> ledger) option" where
  "run_feedback_item = run_item feedback_stage_to_prompt update_feedback_state_after_stage"

text \<open>
  Successive passes over one item, each in the environment it finds; the result is the
  last state and the stages run, in order.
\<close>

fun passes ::
  "(item_env \<Rightarrow> stage_state \<Rightarrow> stage_state \<times> (string \<times> ledger) option)
    \<Rightarrow> item_env list \<Rightarrow> stage_state \<Rightarrow> stage_state \<times> (string \<times> ledger) list" where
  "passes run [] state = (state, [])"
| "passes run (env # envs) state =
     (case run env state of
        (state', invoked) \<Rightarrow>
          (case passes run envs state' of
             (state'', later) \<Rightarrow>
               (state'', (case invoked of None \<Rightarrow> [] | Some r \<Rightarrow> [r]) @ later)))"

section \<open>The task graph: \<^verbatim>\<open>Workflow._topologically_sort\<close>\<close>

text \<open>
  A backlog task with the fields the ordering reads, and its title standing for the
  rest of the entry.
\<close>

record task_entry =
  te_task_id :: string
  te_title :: string
  te_deps :: "string list"

datatype graph_error =
    Unknown_dependency string string
  | Cyclic_dependencies "string list"

text \<open>
  A Python dictionary with string keys is an association list with distinct keys, in
  insertion order: \<^verbatim>\<open>d[k] = v\<close> replaces the value of a key in place or appends a
  new key. The three dictionaries of the function have the task identifiers as their
  keys, and every key the function reads is a task identifier: no read raises
  \<^verbatim>\<open>KeyError\<close>, and the model has no branch for it (a read of a missing key changes
  nothing and yields the empty list).
\<close>

type_synonym 'v dict = "(string \<times> 'v) list"

definition dict_of_tasks :: "(task_entry \<Rightarrow> 'v) \<Rightarrow> task_entry list \<Rightarrow> 'v dict" where
  "dict_of_tasks f tasks = foldl (\<lambda>d t. AList.update (te_task_id t) (f t) d) [] tasks"

text \<open>The inner loop \<^verbatim>\<open>for dep in task.deps\<close>.\<close>

fun add_deps ::
  "task_entry dict \<Rightarrow> string \<Rightarrow> string list \<Rightarrow> int dict \<times> string list dict
    \<Rightarrow> graph_error + int dict \<times> string list dict" where
  "add_deps index tid [] st = Inr st"
| "add_deps index tid (dep # deps) (indegree, adjacency) =
     (if map_of index dep = None then Inl (Unknown_dependency tid dep)
      else add_deps index tid deps
             (AList.map_entry tid (\<lambda>d. d + 1) indegree,
              AList.map_entry dep (\<lambda>l. l @ [tid]) adjacency))"

text \<open>The outer loop \<^verbatim>\<open>for task in tasks\<close>.\<close>

fun add_tasks ::
  "task_entry dict \<Rightarrow> task_entry list \<Rightarrow> int dict \<times> string list dict
    \<Rightarrow> graph_error + int dict \<times> string list dict" where
  "add_tasks index [] st = Inr st"
| "add_tasks index (t # ts) st =
     (case add_deps index (te_task_id t) (te_deps t) st of
        Inl e \<Rightarrow> Inl e
      | Inr st' \<Rightarrow> add_tasks index ts st')"

definition neighbours :: "string list dict \<Rightarrow> string \<Rightarrow> string list" where
  "neighbours adjacency current = (case map_of adjacency current of None \<Rightarrow> [] | Some l \<Rightarrow> l)"

text \<open>
  The heap \<^verbatim>\<open>ready\<close> of \<^verbatim>\<open>heapq\<close> is kept as a sorted list: \<^verbatim>\<open>heapify\<close> sorts,
  \<^verbatim>\<open>heappush\<close> inserts in order, \<^verbatim>\<open>heappop\<close> takes the head. A binary heap and a
  sorted list with the same elements pop the same, least, element. Strings are compared
  as Python compares them: lexicographically, character by character.

  The loop \<^verbatim>\<open>for neighbor in adjacency[current]\<close>:
\<close>

fun relax :: "string list \<Rightarrow> int dict \<Rightarrow> string list \<Rightarrow> int dict \<times> string list" where
  "relax [] indegree ready = (indegree, ready)"
| "relax (neighbor # rest) indegree ready =
     (let indegree' = AList.map_entry neighbor (\<lambda>d. d - 1) indegree in
      if map_of indegree' neighbor = Some 0
      then relax rest indegree' (insort neighbor ready)
      else relax rest indegree' ready)"

definition positive :: "int dict \<Rightarrow> nat" where
  "positive indegree = length (filter (\<lambda>(k, d). 0 < d) indegree)"

lemma positive_map_entry:
  "positive (AList.map_entry k (\<lambda>d. d - 1) indegree) \<le> positive indegree"
  by (induction indegree) (auto simp: positive_def)

lemma positive_map_entry_zero:
  "map_of (AList.map_entry k (\<lambda>d. d - 1) indegree) k = Some 0 \<Longrightarrow>
   Suc (positive (AList.map_entry k (\<lambda>d. d - 1) indegree)) \<le> positive indegree"
  by (induction indegree) (auto simp: positive_def split: if_splits)

lemma relax_measure:
  "relax ns indegree ready = (indegree', ready') \<Longrightarrow>
   length ready' + positive indegree' \<le> length ready + positive indegree"
proof (induction ns arbitrary: indegree ready)
  case Nil
  then show ?case by simp
next
  case (Cons n ns)
  let ?i = "AList.map_entry n (\<lambda>d. d - 1) indegree"
  show ?case
  proof (cases "map_of ?i n = Some 0")
    case True
    with Cons.prems have "relax ns ?i (insort n ready) = (indegree', ready')"
      by (simp add: Let_def)
    from Cons.IH [OF this] positive_map_entry_zero [OF True] show ?thesis
      by simp
  next
    case False
    with Cons.prems have "relax ns ?i ready = (indegree', ready')"
      by (simp add: Let_def)
    from Cons.IH [OF this] positive_map_entry [of n indegree] show ?thesis
      by simp
  qed
qed

text \<open>
  \<^verbatim>\<open>while ready\<close>: pop the least identifier, append it to the order, relax its
  neighbours. The loop ends because an identifier is pushed only when its in-degree
  drops to zero.
\<close>

function drain ::
  "string list dict \<Rightarrow> int dict \<Rightarrow> string list \<Rightarrow> string list \<Rightarrow> int dict \<times> string list" where
  "drain adjacency indegree [] ordered_ids = (indegree, ordered_ids)"
| "drain adjacency indegree (current # ready) ordered_ids =
     (case relax (neighbours adjacency current) indegree ready of
        (indegree', ready') \<Rightarrow> drain adjacency indegree' ready' (ordered_ids @ [current]))"
  by pat_completeness auto
termination
proof (relation "measure (\<lambda>(adjacency, indegree, ready, ordered_ids).
    length ready + positive indegree)", goal_cases)
  case 1
  show ?case by simp
next
  case 2
  from relax_measure [OF 2 [symmetric]] show ?case
    by simp
qed

definition topologically_sort :: "task_entry list \<Rightarrow> graph_error + task_entry list" where
  "topologically_sort tasks =
     (let index = dict_of_tasks (\<lambda>t. t) tasks in
      case add_tasks index tasks
             (dict_of_tasks (\<lambda>t. 0) tasks, dict_of_tasks (\<lambda>t. []) tasks) of
        Inl e \<Rightarrow> Inl e
      | Inr (indegree, adjacency) \<Rightarrow>
          (case drain adjacency indegree
                  (sort (map fst (filter (\<lambda>(task_id, degree). degree = 0) indegree))) [] of
             (indegree', ordered_ids) \<Rightarrow>
               if length ordered_ids \<noteq> length tasks
               then Inl (Cyclic_dependencies
                           (map fst (filter (\<lambda>(task_id, degree). 0 < degree) indegree')))
               else Inr (List.map_filter (map_of index) ordered_ids)))"

text \<open>
  The dependency graph of a task list: an edge from an identifier to each task that
  lists it among its dependencies.
\<close>

definition dep_edges :: "task_entry list \<Rightarrow> (string \<times> string) set" where
  "dep_edges tasks =
     set (concat (map (\<lambda>t. map (\<lambda>d. (d, te_task_id t)) (te_deps t)) tasks))"


text \<open>
  What the proofs say about a task list: the dependencies listed under an identifier,
  and the identifiers, in the order of the list.
\<close>

definition deps_of :: "task_entry list \<Rightarrow> string \<Rightarrow> string list" where
  "deps_of tasks k = concat (map te_deps (filter (\<lambda>t. te_task_id t = k) tasks))"

definition task_ids :: "task_entry list \<Rightarrow> string list" where
  "task_ids tasks = map te_task_id tasks"

text \<open>
  The identifiers that relaxing a list of neighbours pushes on the heap: those whose
  in-degree is positive before and is used up by their occurrences in the list.
\<close>

definition zeroed :: "string list \<Rightarrow> int dict \<Rightarrow> string set" where
  "zeroed ns indegree =
     {k \<in> set ns. \<exists>v. map_of indegree k = Some v \<and> 0 < v \<and> v \<le> int (count_list ns k)}"

text \<open>
  What the adjacency dictionary holds once it is built: a task is listed under a
  dependency as often as it names it. And the invariant of the loop: the in-degree of an
  identifier counts its dependencies not yet ordered; the identifiers ordered or ready
  are those whose dependencies are all ordered; every ordered identifier comes after its
  dependencies and was, when it was popped, the least identifier eligible.
\<close>

definition adjacency_ok :: "task_entry list \<Rightarrow> string list dict \<Rightarrow> bool" where
  "adjacency_ok tasks adj =
     ((\<forall>d k. count_list (neighbours adj d) k = count_list (deps_of tasks k) d)
      \<and> (\<forall>d. set (neighbours adj d) \<subseteq> set (task_ids tasks)))"

definition kahn_inv :: "task_entry list \<Rightarrow> int dict \<Rightarrow> string list \<Rightarrow> string list \<Rightarrow> bool" where
  "kahn_inv tasks indeg ready ordered =
     (map fst indeg = task_ids tasks
      \<and> (\<forall>k \<in> set (task_ids tasks).
            map_of indeg k =
              Some (int (length (filter (\<lambda>d. d \<notin> set ordered) (deps_of tasks k)))))
      \<and> sorted ready \<and> distinct (ordered @ ready)
      \<and> set (ordered @ ready) \<subseteq> set (task_ids tasks)
      \<and> (\<forall>k \<in> set (task_ids tasks).
            (k \<in> set ordered \<union> set ready) = (set (deps_of tasks k) \<subseteq> set ordered))
      \<and> (\<forall>i < length ordered. set (deps_of tasks (ordered ! i)) \<subseteq> set (take i ordered))
      \<and> (\<forall>i < length ordered. \<forall>k \<in> set (task_ids tasks).
            k \<notin> set (take i ordered) \<and> set (deps_of tasks k) \<subseteq> set (take i ordered)
            \<longrightarrow> ordered ! i \<le> k))"


section \<open>Example runs\<close>

text \<open>
  Gateways given by a finite script of responses (the process fails once the script is
  over), and the responses and configurations the examples use.
\<close>

definition verdict :: "string \<Rightarrow> string list \<Rightarrow> string option \<Rightarrow> review" where
  "verdict st iss actor =
     \<lparr>rv_status = Some st, rv_issues = iss, rv_summary = None, rv_next_actor = actor\<rparr>"

definition answers :: "string \<Rightarrow> review option \<Rightarrow> string list \<Rightarrow> response" where
  "answers sid rv gone =
     \<lparr>return_code = 0, raw_output = ''session id: '' @ sid, decoded = rv, absent = gone\<rparr>"

definition crashes :: response where
  "crashes = \<lparr>return_code = 1, raw_output = [], decoded = None, absent = []\<rparr>"

definition script :: "response list \<Rightarrow> gateway" where
  "script rs n = (if n < length rs then rs ! n else crashes)"

definition task_config :: "nat \<Rightarrow> nat \<Rightarrow> nat \<Rightarrow> bool \<Rightarrow> flow_config" where
  "task_config na nm nq with_qa =
     \<lparr>agent_retry_limit = na, manager_retry_limit = nm,
      qa_retry_limit = nq, spec_name = ''Module Developer'',
      deliverables = [''report.md''], initial_prompt = ''Implement the task.'',
      task_id = Some ''T-001'', task_source = Some ''BACKLOG/backlog.json'',
      task_dir = Some ''automation_artifacts/tasks/t-001'', enable_qa = with_qa,
      qa_label = Some ''tasks/t-001/qa''\<rparr>"


text \<open>Three backlogs: one that can be scheduled, one with a cycle, and one with a
  cycle and a dependency on a task that is not in the backlog.\<close>

definition backlog_entry :: "string \<Rightarrow> string list \<Rightarrow> task_entry" where
  "backlog_entry ident deps = \<lparr>te_task_id = ident, te_title = [], te_deps = deps\<rparr>"

definition backlog :: "task_entry list" where
  "backlog =
     [backlog_entry ''T-001'' [''T-003''],
      backlog_entry ''T-002'' [],
      backlog_entry ''T-003'' [],
      backlog_entry ''T-004'' [''T-001'', ''T-002'']]"




section \<open>Properties of the gateway\<close>




section \<open>The execution flow: unfolding the loops\<close>

declare manager_retries.simps [simp del] qa_retries.simps [simp del]
  manager_cycles.simps [simp del] agent_attempts.simps [simp del]

lemma entry_simps [simp]:
  "inv_role (entry gw n r a p s) = r"
  "inv_attempt (entry gw n r a p s) = a"
  "inv_prompt (entry gw n r a p s) = p"
  "inv_resume (entry gw n r a p s) = s"
  "inv_outcome (entry gw n r a p s) = outcome_of (codex_run (gw n) s)"
  by (simp_all add: entry_def)

lemma manager_retries_unfold:
  "manager_retries c gw a q k s led =
     (if manager_retry_limit c < k then (Inl Manager_retries_exhausted, led)
      else (case read_review (codex_run (gw (length led)) s) of
              Inr rr \<Rightarrow> (Inr rr, led @ [entry gw (length led) Manager a (Manager_prompt q) s])
            | Inl f \<Rightarrow>
               (if manager_retry_limit c \<le> k
                then (Inl (case f of Called_process_error \<Rightarrow> Manager_execution_failed
                                   | Invalid_agent_response r \<Rightarrow> Manager_invalid_json),
                      led @ [entry gw (length led) Manager a (Manager_prompt q) s])
                else manager_retries c gw a q (Suc k)
                       (case f of Called_process_error \<Rightarrow> None
                                | Invalid_agent_response r \<Rightarrow> session_id r)
                       (led @ [entry gw (length led) Manager a (Manager_prompt q) s]))))"
  by (subst manager_retries.simps)
     (auto simp: run_manager_validation_def invoke_def split: sum.splits review_failure.splits)

lemma qa_retries_unfold:
  "qa_retries c gw a notes k s led =
     (if qa_retry_limit c < k then (Inl QA_retries_exhausted, led)
      else (case read_review (codex_run (gw (length led)) s) of
              Inr (rv, r) \<Rightarrow>
                (Inr (rv, r, a + k), led @ [entry gw (length led) QA (a + k) (QA_prompt notes) s])
            | Inl f \<Rightarrow>
               (if qa_retry_limit c \<le> k
                then (Inl (case f of Called_process_error \<Rightarrow> QA_execution_failed
                                   | Invalid_agent_response r \<Rightarrow> QA_invalid_json),
                      led @ [entry gw (length led) QA (a + k) (QA_prompt notes) s])
                else qa_retries c gw a notes (Suc k)
                       (case f of Called_process_error \<Rightarrow> None
                                | Invalid_agent_response r \<Rightarrow> session_id r)
                       (led @ [entry gw (length led) QA (a + k) (QA_prompt notes) s]))))"
  by (subst qa_retries.simps)
     (auto simp: run_qa_review_def invoke_def Let_def split: sum.splits review_failure.splits)

lemma manager_cycles_unfold:
  "manager_cycles c gw ma ms cq qs cnt led =
     (case manager_retries c gw ma cq 0 ms led of
        (Inl e, led1) \<Rightarrow> (Failed e, led1)
      | (Inr (rv, mres), led1) \<Rightarrow>
          (if status_of rv = ''pass'' then (Validated, led1)
           else if manager_retry_limit c < ma
             then (Failed (Manager_validation_failed ma (rv_issues rv)), led1)
           else if lower (or_empty (py_or (rv_next_actor rv) (Some ''agent''))) = ''qa'' \<and> qa_active c
             then (case qa_retries c gw (Suc cnt) (Some (format_issue_list (rv_issues rv))) 0 qs led1 of
                     (Inl e, led2) \<Rightarrow> (Failed e, led2)
                   | (Inr (qa_rv, qres, counter), led2) \<Rightarrow>
                       (if status_of qa_rv \<noteq> ''pass'' then
                          (Retry_agent (build_retry_prompt (initial_prompt c)
                             (if rv_issues qa_rv \<noteq> [] then rv_issues qa_rv else rv_issues rv)), led2)
                        else manager_cycles c gw (Suc ma) (session_id mres) (Some qa_rv)
                               (session_id qres) counter led2))
           else (Retry_agent (build_retry_prompt (initial_prompt c) (rv_issues rv)), led1)))"
  by (subst manager_cycles.simps)
     (simp add: perform_manager_validation_with_retries_def perform_qa_review_with_retries_def
        validate_backlog_resource_constraints_def Let_def
        split: prod.splits sum.splits)

lemma agent_attempts_unfold:
  "agent_attempts c gw a p s led =
     (if agent_retry_limit c + 1 < a then (Attempts_spent, led)
      else (case codex_run (gw (length led)) s of
              None \<Rightarrow>
                (if a = agent_retry_limit c + 1
                 then (Raised (Agent_execution_failed a),
                       led @ [entry gw (length led) Agent a (Agent_prompt p) s])
                 else agent_attempts c gw (Suc a) p None
                        (led @ [entry gw (length led) Agent a (Agent_prompt p) s]))
            | Some res \<Rightarrow>
                (case acceptance_and_review c gw (gw (length led))
                        (led @ [entry gw (length led) Agent a (Agent_prompt p) s]) of
                   (Validated, led2) \<Rightarrow> (Accepted, led2)
                 | (Failed e, led2) \<Rightarrow> (Raised e, led2)
                 | (Retry_agent p', led2) \<Rightarrow>
                     agent_attempts c gw (Suc a) p' (session_id res) led2)))"
  by (subst agent_attempts.simps)
     (simp add: invoke_def split: option.splits prod.splits cycle_exit.splits)

section \<open>The execution flow: the ledger only grows\<close>

lemma manager_retries_ledger:
  "manager_retries c gw a q k s led = (out, led') \<Longrightarrow>
     \<exists>ext. led' = led @ ext \<and> (\<forall>x \<in> set ext. inv_role x = Manager \<and> inv_attempt x = a)
       \<and> (k \<le> manager_retry_limit c \<longrightarrow> ext \<noteq> [])"
proof (induction "manager_retry_limit c + 1 - k" arbitrary: k s led out led')
  case 0
  then show ?case
    by (subst (asm) manager_retries_unfold) auto
next
  case (Suc n)
  from Suc.hyps(2) have n: "n = manager_retry_limit c + 1 - Suc k" by simp
  show ?case
    using Suc.prems Suc.hyps(2) Suc.hyps(1) [OF n]
    by (subst (asm) manager_retries_unfold)
       (fastforce split: if_splits sum.splits)
qed

lemma qa_retries_ledger:
  "qa_retries c gw a notes k s led = (out, led') \<Longrightarrow>
     \<exists>ext. led' = led @ ext \<and> (\<forall>x \<in> set ext. inv_role x = QA)
       \<and> (k \<le> qa_retry_limit c \<longrightarrow> ext \<noteq> [] \<and> inv_attempt (hd ext) = a + k)"
proof (induction "qa_retry_limit c + 1 - k" arbitrary: k s led out led')
  case 0
  then show ?case
    by (subst (asm) qa_retries_unfold) auto
next
  case (Suc n)
  from Suc.hyps(2) have n: "n = qa_retry_limit c + 1 - Suc k" by simp
  show ?case
    using Suc.prems Suc.hyps(2) Suc.hyps(1) [OF n]
    by (subst (asm) qa_retries_unfold)
       (fastforce split: if_splits sum.splits)
qed

lemma manager_cycles_ledger:
  "manager_cycles c gw ma ms cq qs cnt led = (out, led') \<Longrightarrow>
     \<exists>ext. led' = led @ ext \<and> (\<forall>x \<in> set ext. inv_role x \<noteq> Agent)"
proof (induction "manager_retry_limit c + 1 - ma" arbitrary: ma ms cq qs cnt led out led')
  case 0
  then show ?case
    by (subst (asm) manager_cycles_unfold)
       (auto split: if_splits prod.splits sum.splits dest!: manager_retries_ledger)
next
  case (Suc n)
  from Suc.hyps(2) have n: "n = manager_retry_limit c + 1 - Suc ma" by simp
  show ?case
    using Suc.prems
    by (subst (asm) manager_cycles_unfold)
       (auto split: if_splits prod.splits sum.splits
          dest!: manager_retries_ledger qa_retries_ledger Suc.hyps(1) [OF n])
qed

lemma first_qa_review_ledger:
  "first_qa_review c gw led = (out, led') \<Longrightarrow>
     \<exists>ext. led' = led @ ext \<and> (\<forall>x \<in> set ext. inv_role x \<noteq> Agent)"
  by (auto simp: first_qa_review_def perform_qa_review_with_retries_def
        split: if_splits prod.splits sum.splits dest!: qa_retries_ledger)

lemma acceptance_and_review_ledger:
  "acceptance_and_review c gw r led = (out, led') \<Longrightarrow>
     \<exists>ext. led' = led @ ext \<and> (\<forall>x \<in> set ext. inv_role x \<noteq> Agent)"
  by (auto simp: acceptance_and_review_def Let_def
        split: if_splits prod.splits qa_exit.splits
        dest!: first_qa_review_ledger manager_cycles_ledger)

lemma agent_count_Nil [simp]: "agent_count [] = 0"
  by (simp add: agent_count_def)

lemma agent_count_append [simp]: "agent_count (xs @ ys) = agent_count xs + agent_count ys"
  by (simp add: agent_count_def)

lemma agent_count_reviewers: "\<forall>x \<in> set ext. inv_role x \<noteq> Agent \<Longrightarrow> agent_count ext = 0"
  by (simp add: agent_count_def)

lemma agent_count_Cons [simp]:
  "agent_count (x # xs) = (if inv_role x = Agent then Suc (agent_count xs) else agent_count xs)"
  by (simp add: agent_count_def)

lemma agent_attempts_ledger:
  "agent_attempts c gw a p s led = (out, led') \<Longrightarrow>
     \<exists>ext. led' = led @ ext \<and> agent_count ext \<le> agent_retry_limit c + 2 - a"
proof (induction "agent_retry_limit c + 2 - a" arbitrary: a p s led out led')
  case 0
  then show ?case
    by (subst (asm) agent_attempts_unfold) auto
next
  case (Suc n)
  from Suc.hyps(2) have n: "n = agent_retry_limit c + 2 - Suc a" by simp
  show ?case
    using Suc.prems Suc.hyps(2) Suc.hyps(1) [OF n]
    by (subst (asm) agent_attempts_unfold)
       (fastforce split: if_splits option.splits prod.splits cycle_exit.splits
          dest!: acceptance_and_review_ledger simp: agent_count_reviewers)
qed

section \<open>The agent phase\<close>





section \<open>Missing deliverables\<close>

lemma agent_attempts_first:
  assumes "a \<le> agent_retry_limit c + 1" and "agent_attempts c gw a p s led = (out, led')"
  shows "length led < length led'
    \<and> led' ! length led = entry gw (length led) Agent a (Agent_prompt p) s"
  using assms
  by (subst (asm) agent_attempts_unfold)
     (auto split: if_splits option.splits prod.splits cycle_exit.splits
        dest!: acceptance_and_review_ledger agent_attempts_ledger simp: nth_append)

lemma acceptance_with_missing:
  "missing_deliverables r (deliverables c) \<noteq> [] \<Longrightarrow>
   acceptance_and_review c gw r led =
     (Retry_agent (build_missing_deliverables_prompt (initial_prompt c)
        (missing_deliverables r (deliverables c))), led)"
  by (simp add: acceptance_and_review_def)

lemma acceptance_without_missing:
  "acceptance_and_review c gw r led = (ex, led') \<Longrightarrow> ex \<noteq> Retry_agent p \<or> led' \<noteq> led
    \<Longrightarrow> ex = Validated \<or> (\<exists>e. ex = Failed e) \<Longrightarrow> missing_deliverables r (deliverables c) = []"
  by (auto simp: acceptance_and_review_def Let_def split: if_splits)

lemma token_of_outcome_of [simp]:
  "token_of (outcome_of (Some res)) = session_id res"
  "token_of (outcome_of None) = None"
  by (simp_all add: token_of_def outcome_of_def)

lemma outcome_of_failed [simp]:
  "outcome_of None = Gateway_failed" "outcome_of (Some res) \<noteq> Gateway_failed"
  by (simp_all add: outcome_of_def)

lemma agent_attempts_missing:
  "agent_attempts c gw a p s led = (out, led') \<Longrightarrow>
   length led \<le> i \<Longrightarrow> i < length led' \<Longrightarrow> inv_role (led' ! i) = Agent \<Longrightarrow>
   inv_outcome (led' ! i) \<noteq> Gateway_failed \<Longrightarrow>
   missing_deliverables (gw i) (deliverables c) \<noteq> [] \<Longrightarrow>
   inv_attempt (led' ! i) \<le> agent_retry_limit c \<Longrightarrow>
   Suc i < length led' \<and>
   led' ! Suc i = entry gw (Suc i) Agent (Suc (inv_attempt (led' ! i)))
     (Agent_prompt (build_missing_deliverables_prompt (initial_prompt c)
        (missing_deliverables (gw i) (deliverables c))))
     (token_of (inv_outcome (led' ! i)))"
proof (induction "agent_retry_limit c + 2 - a" arbitrary: a p s led)
  case 0
  then show ?case
    by (subst (asm) agent_attempts_unfold) auto
next
  case (Suc n)
  from Suc.hyps(2) have n: "n = agent_retry_limit c + 2 - Suc a"
    and a: "a \<le> agent_retry_limit c + 1" by simp_all
  let ?e = "entry gw (length led) Agent a (Agent_prompt p) s"
  let ?led1 = "led @ [?e]"
  note IH = Suc.hyps(1) [OF n _ _ Suc.prems(3-7)]
  show ?case
  proof (cases "codex_run (gw (length led)) s")
    case None
    show ?thesis
    proof (cases "a = agent_retry_limit c + 1")
      case True
      with None Suc.prems(1) have "led' = ?led1"
        by (subst (asm) agent_attempts_unfold) simp
      with Suc.prems None show ?thesis
        by (auto simp: nth_append split: if_splits)
    next
      case False
      with None Suc.prems(1) a
      have rec: "agent_attempts c gw (Suc a) p None ?led1 = (out, led')"
        by (subst (asm) agent_attempts_unfold) simp
      from agent_attempts_ledger [OF rec] obtain ext where ext: "led' = ?led1 @ ext"
        by blast
      show ?thesis
      proof (cases "i = length led")
        case True
        with ext None Suc.prems(5) show ?thesis by (simp add: nth_append)
      next
        case False
        with Suc.prems(2) have "length ?led1 \<le> i" by simp
        from IH [OF rec this] show ?thesis .
      qed
    qed
  next
    case (Some res)
    obtain ex led2 where acc: "acceptance_and_review c gw (gw (length led)) ?led1 = (ex, led2)"
      by (cases "acceptance_and_review c gw (gw (length led)) ?led1")
    from acceptance_and_review_ledger [OF acc] obtain ext2
      where ext2: "led2 = ?led1 @ ext2" and roles2: "\<forall>x \<in> set ext2. inv_role x \<noteq> Agent"
      by blast
    show ?thesis
    proof (cases "missing_deliverables (gw (length led)) (deliverables c) = []")
      case False
      note missing = acceptance_with_missing [OF False, of gw ?led1]
      with acc have ex: "ex = Retry_agent (build_missing_deliverables_prompt (initial_prompt c)
          (missing_deliverables (gw (length led)) (deliverables c)))" and led2: "led2 = ?led1"
        by simp_all
      from Some Suc.prems(1) a acc ex led2
      have rec: "agent_attempts c gw (Suc a) (build_missing_deliverables_prompt (initial_prompt c)
          (missing_deliverables (gw (length led)) (deliverables c))) (session_id res) ?led1 = (out, led')"
        by (subst (asm) agent_attempts_unfold) simp
      from agent_attempts_ledger [OF rec] obtain ext where ext: "led' = ?led1 @ ext"
        by blast
      show ?thesis
      proof (cases "i = length led")
        case True
        with ext Suc.prems(7) have "Suc a \<le> agent_retry_limit c + 1"
          by (simp add: nth_append)
        from agent_attempts_first [OF this rec] True ext Some show ?thesis
          by (simp add: nth_append)
      next
        case False
        with Suc.prems(2) have "length ?led1 \<le> i" by simp
        from IH [OF rec this] show ?thesis .
      qed
    next
      case True
      have not_here: "i \<noteq> length led"
        using True Suc.prems(6) by auto
      show ?thesis
      proof (cases ex)
        case Validated
        with Some Suc.prems(1) a acc have "led' = led2"
          by (subst (asm) agent_attempts_unfold) simp
        with ext2 roles2 Suc.prems(2,3,4) not_here show ?thesis
          by (auto simp: nth_append split: if_splits)
      next
        case (Failed e)
        with Some Suc.prems(1) a acc have "led' = led2"
          by (subst (asm) agent_attempts_unfold) simp
        with ext2 roles2 Suc.prems(2,3,4) not_here show ?thesis
          by (auto simp: nth_append split: if_splits)
      next
        case (Retry_agent p')
        with Some Suc.prems(1) a acc
        have rec: "agent_attempts c gw (Suc a) p' (session_id res) led2 = (out, led')"
          by (subst (asm) agent_attempts_unfold) simp
        from agent_attempts_ledger [OF rec] obtain ext where ext: "led' = led2 @ ext"
          by blast
        show ?thesis
        proof (cases "length led2 \<le> i")
          case True
          from IH [OF rec this] show ?thesis .
        next
          case False
          with ext ext2 roles2 Suc.prems(2,4) not_here show ?thesis
            by (auto simp: nth_append split: if_splits)
        qed
      qed
    qed
  qed
qed

text \<open>
  Claim C3, as amended. When an invocation of the agent succeeds at the gateway, a
  declared deliverable is missing or empty, and an attempt of the agent remains, the
  very next invocation of the flow is the agent's next attempt: its prompt is the
  corrective prompt built from the initial prompt and exactly the declared deliverables
  that are missing, and it resumes the session of the invocation before it. No manager
  or QA invocation lies between the two, so the loop spends an attempt of the agent and
  nothing else.
\<close>

theorem missing_deliverables_retry:
  assumes "led = snd (execute_agent_flow c gw)"
    and "i < length led"
    and "inv_role (led ! i) = Agent"
    and "inv_outcome (led ! i) \<noteq> Gateway_failed"
    and "missing_deliverables (gw i) (deliverables c) \<noteq> []"
    and "inv_attempt (led ! i) \<le> agent_retry_limit c"
  shows "Suc i < length led
    \<and> inv_role (led ! Suc i) = Agent
    \<and> inv_attempt (led ! Suc i) = Suc (inv_attempt (led ! i))
    \<and> inv_prompt (led ! Suc i) =
        Agent_prompt (build_missing_deliverables_prompt (initial_prompt c)
          (filter (\<lambda>path. path \<in> set (absent (gw i))) (deliverables c)))
    \<and> inv_resume (led ! Suc i) = token_of (inv_outcome (led ! i))"
proof -
  obtain out where run: "agent_attempts c gw 1 (initial_prompt c) None [] = (out, led)"
    using assms(1) by (cases "agent_attempts c gw 1 (initial_prompt c) None []")
      (simp add: execute_agent_flow_def)
  from agent_attempts_missing [OF run _ assms(2-6)]
  show ?thesis
    by (simp add: missing_deliverables_def)
qed

theorem missing_deliverables_retry_witness:
  "inv_role (snd (execute_agent_flow (task_config 1 0 0 False)
          (script [answers ''a-1'' None [''report.md''],
                   answers ''a-2'' None [],
                   answers ''m-1'' (Some (verdict ''pass'' [] None)) []])) ! Suc 0) = Agent
   \<and> inv_attempt (snd (execute_agent_flow (task_config 1 0 0 False)
          (script [answers ''a-1'' None [''report.md''],
                   answers ''a-2'' None [],
                   answers ''m-1'' (Some (verdict ''pass'' [] None)) []])) ! Suc 0) = 2
   \<and> inv_prompt (snd (execute_agent_flow (task_config 1 0 0 False)
          (script [answers ''a-1'' None [''report.md''],
                   answers ''a-2'' None [],
                   answers ''m-1'' (Some (verdict ''pass'' [] None)) []])) ! Suc 0) =
       Agent_prompt (build_missing_deliverables_prompt ''Implement the task.'' [''report.md''])
   \<and> inv_resume (snd (execute_agent_flow (task_config 1 0 0 False)
          (script [answers ''a-1'' None [''report.md''],
                   answers ''a-2'' None [],
                   answers ''m-1'' (Some (verdict ''pass'' [] None)) []])) ! Suc 0) = Some ''a-1''"
proof -
  let ?c = "task_config 1 0 0 False"
  let ?gw = "script [answers ''a-1'' None [''report.md''], answers ''a-2'' None [],
                   answers ''m-1'' (Some (verdict ''pass'' [] None)) []]"
  let ?led = "snd (execute_agent_flow ?c ?gw)"
  have led: "?led =
     [\<lparr>inv_role = Agent, inv_attempt = 1, inv_prompt = Agent_prompt ''Implement the task.'',
       inv_resume = None, inv_outcome = Gateway_ok (Some ''a-1'')\<rparr>,
      \<lparr>inv_role = Agent, inv_attempt = 2,
       inv_prompt = Agent_prompt (build_missing_deliverables_prompt ''Implement the task.''
                   [''report.md'']),
       inv_resume = Some ''a-1'', inv_outcome = Gateway_ok (Some ''a-2'')\<rparr>,
      \<lparr>inv_role = Manager, inv_attempt = 1, inv_prompt = Manager_prompt None,
       inv_resume = None, inv_outcome = Gateway_ok (Some ''m-1'')\<rparr>]"
    by code_simp
  have 2: "0 < length ?led" and 3: "inv_role (?led ! 0) = Agent"
    and 4: "inv_outcome (?led ! 0) \<noteq> Gateway_failed"
    unfolding led by simp_all
  have 6: "inv_attempt (?led ! 0) \<le> agent_retry_limit ?c"
    unfolding led by (simp add: task_config_def)
  have 5: "missing_deliverables (?gw 0) (deliverables ?c) \<noteq> []"
    by (simp add: missing_deliverables_def script_def answers_def task_config_def)
  have 7: "inv_attempt (?led ! 0) = 1" and 8: "inv_outcome (?led ! 0) = Gateway_ok (Some ''a-1'')"
    unfolding led by simp_all
  have 9: "filter (\<lambda>path. path \<in> set (absent (?gw 0))) (deliverables ?c) = [''report.md'']"
    and 10: "initial_prompt ?c = ''Implement the task.''"
    by (simp_all add: script_def answers_def task_config_def)
  from missing_deliverables_retry [OF refl 2 3 4 5 6]
  show ?thesis
    unfolding 7 8 9 10 by (simp add: token_of_def)
qed

text \<open>
  The claim as written fails on the agent's last attempt: with no retry left, a response
  with a missing deliverable ends the flow after one invocation, and the flow returns.
\<close>

theorem missing_deliverables_last_attempt:
  "missing_deliverables (script [answers ''a-1'' None [''report.md'']] 0)
      (deliverables (task_config 0 0 0 False)) = [''report.md'']
   \<and> execute_agent_flow (task_config 0 0 0 False) (script [answers ''a-1'' None [''report.md'']]) =
       (Attempts_spent,
        [\<lparr>inv_role = Agent, inv_attempt = 1, inv_prompt = Agent_prompt ''Implement the task.'',
          inv_resume = None, inv_outcome = Gateway_ok (Some ''a-1'')\<rparr>])"
  by code_simp


section \<open>Sessions\<close>

lemma token_of_simps [simp]:
  "token_of Gateway_failed = None" "token_of (Gateway_ok t) = t"
  by (simp_all add: token_of_def)

lemma held_sessions_Nil [simp]: "held_sessions [] r = None"
  by (simp add: held_sessions_def)

lemma held_sessions_snoc [simp]:
  "held_sessions (led @ [x]) = note_invocation (held_sessions led) x"
  by (simp add: held_sessions_def)

lemma note_invocation_entry [simp]:
  "note_invocation h (entry gw n Agent a p s) Agent = token_of (outcome_of (codex_run (gw n) s))"
  "r \<noteq> Agent \<Longrightarrow> note_invocation h (entry gw n Agent a p s) r = None"
  "note_invocation h (entry gw n Manager a p s) Manager = token_of (outcome_of (codex_run (gw n) s))"
  "r \<noteq> Manager \<Longrightarrow> note_invocation h (entry gw n Manager a p s) r = h r"
  "note_invocation h (entry gw n QA a p s) QA = token_of (outcome_of (codex_run (gw n) s))"
  "r \<noteq> QA \<Longrightarrow> note_invocation h (entry gw n QA a p s) r = h r"
  by (simp_all add: note_invocation_def)

lemma session_discipline_Nil [simp]: "session_discipline []"
  by (simp add: session_discipline_def)

lemma session_discipline_snoc:
  "session_discipline (led @ [x]) \<longleftrightarrow>
     session_discipline led \<and> inv_resume x = held_sessions led (inv_role x)"
proof -
  have "(\<forall>j < Suc (length led). inv_resume ((led @ [x]) ! j) =
           held_sessions (take j (led @ [x])) (inv_role ((led @ [x]) ! j)))
      \<longleftrightarrow> (\<forall>j < length led. inv_resume (led ! j) = held_sessions (take j led) (inv_role (led ! j)))
          \<and> inv_resume x = held_sessions led (inv_role x)"
    by (auto simp: less_Suc_eq nth_append)
  then show ?thesis
    by (simp add: session_discipline_def)
qed

lemma read_review_cases:
  "read_review x = Inr (rv, r) \<longleftrightarrow> x = Some r \<and> last_message r = Some rv"
  "read_review x = Inl Called_process_error \<longleftrightarrow> x = None"
  "read_review x = Inl (Invalid_agent_response r) \<longleftrightarrow> x = Some r \<and> last_message r = None"
  by (auto simp: read_review_def split: option.splits)

lemma manager_retries_discipline:
  "manager_retries c gw a q k s led = (out, led') \<Longrightarrow> session_discipline led \<Longrightarrow>
   s = held_sessions led Manager \<Longrightarrow>
     session_discipline led'
     \<and> held_sessions led' Agent = held_sessions led Agent
     \<and> held_sessions led' QA = held_sessions led QA
     \<and> (\<forall>rv res. out = Inr (rv, res) \<longrightarrow> held_sessions led' Manager = session_id res)"
proof (induction "manager_retry_limit c + 1 - k" arbitrary: k s led)
  case 0
  then show ?case
    by (subst (asm) manager_retries_unfold) auto
next
  case (Suc n)
  from Suc.hyps(2) have n: "n = manager_retry_limit c + 1 - Suc k"
    and k: "\<not> manager_retry_limit c < k" by simp_all
  let ?led1 = "led @ [entry gw (length led) Manager a (Manager_prompt q) s]"
  have d1: "session_discipline ?led1"
    using Suc.prems(2,3) by (simp add: session_discipline_snoc)
  note IH = Suc.hyps(1) [OF n _ d1]
  show ?case
  proof (cases "read_review (codex_run (gw (length led)) s)")
    case (Inr rr)
    from Inr k Suc.prems(1) have "out = Inr rr \<and> led' = ?led1"
      by (subst (asm) manager_retries_unfold) (auto split: prod.splits)
    with d1 Inr show ?thesis
      by (cases rr) (auto simp: read_review_cases)
  next
    case (Inl f)
    show ?thesis
    proof (cases "manager_retry_limit c \<le> k")
      case True
      from True Inl k Suc.prems(1) have "(\<exists>e. out = Inl e) \<and> led' = ?led1"
        by (subst (asm) manager_retries_unfold) auto
      with d1 show ?thesis
        by auto
    next
      case False
      let ?s' = "case f of Called_process_error \<Rightarrow> None | Invalid_agent_response r \<Rightarrow> session_id r"
      from False Inl k Suc.prems(1)
      have rec: "manager_retries c gw a q (Suc k) ?s' ?led1 = (out, led')"
        by (subst (asm) manager_retries_unfold) simp
      have "?s' = held_sessions ?led1 Manager"
        using Inl by (cases f) (auto simp: read_review_cases)
      from IH [OF rec this] show ?thesis
        by simp
    qed
  qed
qed

lemma qa_retries_discipline:
  "qa_retries c gw a notes k s led = (out, led') \<Longrightarrow> session_discipline led \<Longrightarrow>
   s = held_sessions led QA \<Longrightarrow>
     session_discipline led'
     \<and> held_sessions led' Agent = held_sessions led Agent
     \<and> held_sessions led' Manager = held_sessions led Manager
     \<and> (\<forall>rv res cnt. out = Inr (rv, res, cnt) \<longrightarrow> held_sessions led' QA = session_id res)"
proof (induction "qa_retry_limit c + 1 - k" arbitrary: k s led)
  case 0
  then show ?case
    by (subst (asm) qa_retries_unfold) auto
next
  case (Suc n)
  from Suc.hyps(2) have n: "n = qa_retry_limit c + 1 - Suc k"
    and k: "\<not> qa_retry_limit c < k" by simp_all
  let ?led1 = "led @ [entry gw (length led) QA (a + k) (QA_prompt notes) s]"
  have d1: "session_discipline ?led1"
    using Suc.prems(2,3) by (simp add: session_discipline_snoc)
  note IH = Suc.hyps(1) [OF n _ d1]
  show ?case
  proof (cases "read_review (codex_run (gw (length led)) s)")
    case (Inr rr)
    from Inr k Suc.prems(1) have "out = Inr (fst rr, snd rr, a + k) \<and> led' = ?led1"
      by (subst (asm) qa_retries_unfold) (auto split: prod.splits)
    with d1 Inr show ?thesis
      by (cases rr) (auto simp: read_review_cases)
  next
    case (Inl f)
    show ?thesis
    proof (cases "qa_retry_limit c \<le> k")
      case True
      from True Inl k Suc.prems(1) have "(\<exists>e. out = Inl e) \<and> led' = ?led1"
        by (subst (asm) qa_retries_unfold) auto
      with d1 show ?thesis
        by auto
    next
      case False
      let ?s' = "case f of Called_process_error \<Rightarrow> None | Invalid_agent_response r \<Rightarrow> session_id r"
      from False Inl k Suc.prems(1)
      have rec: "qa_retries c gw a notes (Suc k) ?s' ?led1 = (out, led')"
        by (subst (asm) qa_retries_unfold) simp
      have "?s' = held_sessions ?led1 QA"
        using Inl by (cases f) (auto simp: read_review_cases)
      from IH [OF rec this] show ?thesis
        by simp
    qed
  qed
qed

lemma manager_cycles_discipline:
  "manager_cycles c gw ma ms cq qs cnt led = (out, led') \<Longrightarrow> session_discipline led \<Longrightarrow>
   ms = held_sessions led Manager \<Longrightarrow> qs = held_sessions led QA \<Longrightarrow>
     session_discipline led' \<and> held_sessions led' Agent = held_sessions led Agent"
proof (induction "manager_retry_limit c + 1 - ma" arbitrary: ma ms cq qs cnt led)
  case 0
  then have limit: "manager_retry_limit c < ma" by simp
  obtain mo led1 where m: "manager_retries c gw ma cq 0 ms led = (mo, led1)"
    by (cases "manager_retries c gw ma cq 0 ms led")
  from limit m "0.prems"(1) have "led' = led1"
    by (subst (asm) manager_cycles_unfold) (auto split: sum.splits if_splits)
  with manager_retries_discipline [OF m "0.prems"(2,3)] show ?case
    by simp
next
  case (Suc n)
  from Suc.hyps(2) have n: "n = manager_retry_limit c + 1 - Suc ma" by simp
  obtain mo led1 where m: "manager_retries c gw ma cq 0 ms led = (mo, led1)"
    by (cases "manager_retries c gw ma cq 0 ms led")
  note md = manager_retries_discipline [OF m Suc.prems(2,3)]
  show ?case
  proof (cases "\<exists>rv mres. mo = Inr (rv, mres) \<and> status_of rv \<noteq> ''pass''
      \<and> \<not> manager_retry_limit c < ma
      \<and> lower (or_empty (py_or (rv_next_actor rv) (Some ''agent''))) = ''qa'' \<and> qa_active c")
    case False
    with m Suc.prems(1) have "led' = led1"
      by (subst (asm) manager_cycles_unfold) (auto split: sum.splits if_splits)
    with md show ?thesis
      by simp
  next
    case True
    then obtain rv mres where mo: "mo = Inr (rv, mres)" and st: "status_of rv \<noteq> ''pass''"
      and lim: "\<not> manager_retry_limit c < ma"
      and qa: "lower (or_empty (py_or (rv_next_actor rv) (Some ''agent''))) = ''qa'' \<and> qa_active c"
      by blast
    let ?notes = "Some (format_issue_list (rv_issues rv))"
    obtain qo led2 where q: "qa_retries c gw (Suc cnt) ?notes 0 qs led1 = (qo, led2)"
      by (cases "qa_retries c gw (Suc cnt) ?notes 0 qs led1")
    from md Suc.prems(4) have qs: "qs = held_sessions led1 QA" and d1: "session_discipline led1"
      by simp_all
    note qd = qa_retries_discipline [OF q d1 qs]
    show ?thesis
    proof (cases "\<exists>qa_rv qres counter. qo = Inr (qa_rv, qres, counter) \<and> status_of qa_rv = ''pass''")
      case False
      with m mo st lim qa q Suc.prems(1) have "led' = led2"
        by (subst (asm) manager_cycles_unfold) (auto split: sum.splits if_splits)
      with md qd show ?thesis
        by simp
    next
      case True
      then obtain qa_rv qres counter where qo: "qo = Inr (qa_rv, qres, counter)"
        and pass: "status_of qa_rv = ''pass''"
        by blast
      from m mo st lim qa q qo pass Suc.prems(1)
      have rec: "manager_cycles c gw (Suc ma) (session_id mres) (Some qa_rv) (session_id qres)
          counter led2 = (out, led')"
        by (subst (asm) manager_cycles_unfold) simp
      from md qd mo qo have "session_discipline led2"
        and "session_id mres = held_sessions led2 Manager"
        and "session_id qres = held_sessions led2 QA"
        by simp_all
      from Suc.hyps(1) [OF n rec this] md qd show ?thesis
        by simp
    qed
  qed
qed

lemma first_qa_review_discipline:
  assumes "first_qa_review c gw led = (out, led')" and "session_discipline led"
    and "held_sessions led QA = None"
  shows "session_discipline led'
    \<and> held_sessions led' Agent = held_sessions led Agent
    \<and> held_sessions led' Manager = held_sessions led Manager
    \<and> (\<forall>rv qs idx. out = QA_passed rv qs idx \<longrightarrow> qs = held_sessions led' QA)"
proof (cases "qa_active c")
  case False
  with assms show ?thesis
    by (auto simp: first_qa_review_def)
next
  case True
  obtain qo led1 where q: "qa_retries c gw 1 None 0 None led = (qo, led1)"
    by (cases "qa_retries c gw 1 None 0 None led")
  from assms(3) have "None = held_sessions led QA" by simp
  note qd = qa_retries_discipline [OF q assms(2) this]
  from True q assms(1) have "led' = led1"
    and "\<forall>rv qs idx. out = QA_passed rv qs idx \<longrightarrow> (\<exists>qa_rv qres. qo = Inr (qa_rv, qres, idx) \<and> qs = session_id qres)"
    by (auto simp: first_qa_review_def perform_qa_review_with_retries_def
        split: sum.splits if_splits)
  with qd show ?thesis
    by auto
qed

lemma acceptance_and_review_discipline:
  assumes "acceptance_and_review c gw r led = (out, led')" and "session_discipline led"
    and "held_sessions led QA = None" and "held_sessions led Manager = None"
  shows "session_discipline led' \<and> held_sessions led' Agent = held_sessions led Agent"
proof (cases "missing_deliverables r (deliverables c) = []")
  case False
  from acceptance_with_missing [OF False, of gw led] assms show ?thesis
    by simp
next
  case True
  obtain qe led1 where q: "first_qa_review c gw led = (qe, led1)"
    by (cases "first_qa_review c gw led")
  note qd = first_qa_review_discipline [OF q assms(2,3)]
  show ?thesis
  proof (cases qe)
    case (QA_raised e)
    with True q assms(1) qd show ?thesis
      by (auto simp: acceptance_and_review_def)
  next
    case (QA_rejected iss)
    with True q assms(1) qd show ?thesis
      by (auto simp: acceptance_and_review_def)
  next
    case (QA_passed rv qs idx)
    with True q assms(1)
    have m: "manager_cycles c gw 1 None rv qs (if enable_qa c then max idx 1 else 0) led1 = (out, led')"
      by (simp add: acceptance_and_review_def)
    from qd QA_passed assms(4) have "session_discipline led1"
      and "None = held_sessions led1 Manager" and "qs = held_sessions led1 QA"
      by simp_all
    from manager_cycles_discipline [OF m this] qd show ?thesis
      by simp
  qed
qed

lemma agent_attempts_discipline:
  "agent_attempts c gw a p s led = (out, led') \<Longrightarrow> session_discipline led \<Longrightarrow>
   s = held_sessions led Agent \<Longrightarrow> session_discipline led'"
proof (induction "agent_retry_limit c + 2 - a" arbitrary: a p s led)
  case 0
  then show ?case
    by (subst (asm) agent_attempts_unfold) auto
next
  case (Suc n)
  from Suc.hyps(2) have n: "n = agent_retry_limit c + 2 - Suc a"
    and a: "\<not> agent_retry_limit c + 1 < a" by simp_all
  let ?led1 = "led @ [entry gw (length led) Agent a (Agent_prompt p) s]"
  have d1: "session_discipline ?led1"
    using Suc.prems(2,3) by (simp add: session_discipline_snoc)
  show ?case
  proof (cases "codex_run (gw (length led)) s")
    case None
    show ?thesis
    proof (cases "a = agent_retry_limit c + 1")
      case True
      with None Suc.prems(1) have "led' = ?led1"
        by (subst (asm) agent_attempts_unfold) simp
      with d1 show ?thesis by simp
    next
      case False
      from False None a Suc.prems(1)
      have rec: "agent_attempts c gw (Suc a) p None ?led1 = (out, led')"
        by (subst (asm) agent_attempts_unfold) simp
      have "None = held_sessions ?led1 Agent"
        using None by simp
      from Suc.hyps(1) [OF n rec d1 this] show ?thesis .
    qed
  next
    case (Some res)
    obtain ex led2 where acc: "acceptance_and_review c gw (gw (length led)) ?led1 = (ex, led2)"
      by (cases "acceptance_and_review c gw (gw (length led)) ?led1")
    have "held_sessions ?led1 QA = None" and "held_sessions ?led1 Manager = None"
      by simp_all
    note ad = acceptance_and_review_discipline [OF acc d1 this]
    show ?thesis
    proof (cases ex)
      case Validated
      with Some a acc Suc.prems(1) have "led' = led2"
        by (subst (asm) agent_attempts_unfold) simp
      with ad show ?thesis by simp
    next
      case (Failed e)
      with Some a acc Suc.prems(1) have "led' = led2"
        by (subst (asm) agent_attempts_unfold) simp
      with ad show ?thesis by simp
    next
      case (Retry_agent p')
      with Some a acc Suc.prems(1)
      have rec: "agent_attempts c gw (Suc a) p' (session_id res) led2 = (out, led')"
        by (subst (asm) agent_attempts_unfold) simp
      from ad Some have "session_discipline led2" and "session_id res = held_sessions led2 Agent"
        by simp_all
      from Suc.hyps(1) [OF n rec this] show ?thesis .
    qed
  qed
qed

lemma held_sessions_no_role:
  "\<forall>x \<in> set xs. inv_role x \<noteq> r \<Longrightarrow> held_sessions xs r = None"
  by (induction xs rule: rev_induct) (auto simp: note_invocation_def)

lemma held_sessions_last:
  "inv_role x = r \<Longrightarrow> \<forall>y \<in> set mid. inv_role y \<noteq> r \<Longrightarrow>
   held_sessions (pre @ x # mid) r =
     (if r \<noteq> Agent \<and> (\<exists>y \<in> set mid. inv_role y = Agent) then None
      else token_of (inv_outcome x))"
proof (induction mid rule: rev_induct)
  case Nil
  then show ?case
    by (simp add: note_invocation_def)
next
  case (snoc y ys)
  have "held_sessions (pre @ x # ys @ [y]) = note_invocation (held_sessions (pre @ x # ys)) y"
    using held_sessions_snoc [of "pre @ x # ys" y] by simp
  with snoc show ?case
    by (auto simp: note_invocation_def)
qed

lemma take_between:
  "i < j \<Longrightarrow> j \<le> length xs \<Longrightarrow> take j xs = take i xs @ xs ! i # between xs i j"
proof -
  assume ij: "i < j" and j: "j \<le> length xs"
  have "take j xs = take (i + (j - i)) xs" using ij by simp
  also have "\<dots> = take i xs @ take (j - i) (drop i xs)" by (rule take_add)
  also have "drop i xs = xs ! i # drop (Suc i) xs"
    using ij j by (simp add: Cons_nth_drop_Suc)
  also have "take (j - i) (xs ! i # drop (Suc i) xs) = xs ! i # take (j - Suc i) (drop (Suc i) xs)"
  proof -
    from ij have "j - i = Suc (j - Suc i)" by simp
    then show ?thesis by simp
  qed
  finally show ?thesis by (simp add: between_def)
qed

text \<open>
  Claim C1, as amended. In the ledger of a flow, an invocation that is the first of its
  role is called without a session. An invocation whose role was last invoked at an
  earlier position is called with the session that earlier invocation left: the session
  of its result when it succeeded at the gateway, none when it failed. The one exception
  is a reviewer (manager or QA) when the agent was invoked between the two: the reviewer
  then starts without a session. So the session passed to a role is never one that an
  invocation of another role returned.
\<close>

theorem session_continuity:
  assumes "led = snd (execute_agent_flow c gw)" and "j < length led"
  shows "((\<forall>x \<in> set (take j led). inv_role x \<noteq> inv_role (led ! j)) \<longrightarrow> inv_resume (led ! j) = None)
    \<and> (\<forall>i < j. inv_role (led ! i) = inv_role (led ! j)
          \<and> (\<forall>x \<in> set (between led i j). inv_role x \<noteq> inv_role (led ! j)) \<longrightarrow>
        inv_resume (led ! j) =
          (if inv_role (led ! j) \<noteq> Agent \<and> (\<exists>x \<in> set (between led i j). inv_role x = Agent)
           then None else token_of (inv_outcome (led ! i))))"
proof -
  obtain out where run: "agent_attempts c gw 1 (initial_prompt c) None [] = (out, led)"
    using assms(1) by (cases "agent_attempts c gw 1 (initial_prompt c) None []")
      (simp add: execute_agent_flow_def)
  have "session_discipline led"
    by (rule agent_attempts_discipline [OF run]) simp_all
  with assms(2) have resume: "inv_resume (led ! j) = held_sessions (take j led) (inv_role (led ! j))"
    by (simp add: session_discipline_def)
  show ?thesis
  proof (intro conjI allI impI)
    assume "\<forall>x \<in> set (take j led). inv_role x \<noteq> inv_role (led ! j)"
    then show "inv_resume (led ! j) = None"
      by (simp add: resume held_sessions_no_role)
  next
    fix i
    assume ij: "i < j"
      and same: "inv_role (led ! i) = inv_role (led ! j)
          \<and> (\<forall>x \<in> set (between led i j). inv_role x \<noteq> inv_role (led ! j))"
    from ij assms(2) have "take j led = take i led @ led ! i # between led i j"
      by (simp add: take_between)
    with same show "inv_resume (led ! j) =
          (if inv_role (led ! j) \<noteq> Agent \<and> (\<exists>x \<in> set (between led i j). inv_role x = Agent)
           then None else token_of (inv_outcome (led ! i)))"
      by (simp add: resume held_sessions_last)
  qed
qed

theorem session_continuity_witness:
  "inv_resume (snd (execute_agent_flow (task_config 2 1 1 True)
      (script [answers ''a-1'' None [],
               answers ''q-1'' (Some (verdict ''pass'' [] None)) [],
               answers ''m-1'' (Some (verdict ''fail'' [''untested''] (Some ''qa''))) [],
               answers ''q-2'' (Some (verdict ''pass'' [] None)) [],
               answers ''m-2'' (Some (verdict ''pass'' [] None)) []])) ! 4) = Some ''m-1''"
proof -
  let ?gw = "script [answers ''a-1'' None [],
               answers ''q-1'' (Some (verdict ''pass'' [] None)) [],
               answers ''m-1'' (Some (verdict ''fail'' [''untested''] (Some ''qa''))) [],
               answers ''q-2'' (Some (verdict ''pass'' [] None)) [],
               answers ''m-2'' (Some (verdict ''pass'' [] None)) []]"
  let ?led = "snd (execute_agent_flow (task_config 2 1 1 True) ?gw)"
  have led: "?led =
     [\<lparr>inv_role = Agent, inv_attempt = 1, inv_prompt = Agent_prompt ''Implement the task.'',
       inv_resume = None, inv_outcome = Gateway_ok (Some ''a-1'')\<rparr>,
      \<lparr>inv_role = QA, inv_attempt = 1, inv_prompt = QA_prompt None,
       inv_resume = None, inv_outcome = Gateway_ok (Some ''q-1'')\<rparr>,
      \<lparr>inv_role = Manager, inv_attempt = 1,
       inv_prompt = Manager_prompt (Some (verdict ''pass'' [] None)),
       inv_resume = None, inv_outcome = Gateway_ok (Some ''m-1'')\<rparr>,
      \<lparr>inv_role = QA, inv_attempt = 2, inv_prompt = QA_prompt (Some ''- untested''),
       inv_resume = Some ''q-1'', inv_outcome = Gateway_ok (Some ''q-2'')\<rparr>,
      \<lparr>inv_role = Manager, inv_attempt = 2,
       inv_prompt = Manager_prompt (Some (verdict ''pass'' [] None)),
       inv_resume = Some ''m-1'', inv_outcome = Gateway_ok (Some ''m-2'')\<rparr>]"
    by code_simp
  have j: "4 < length ?led" and i: "(2::nat) < 4"
    and same: "inv_role (?led ! 2) = inv_role (?led ! 4)
      \<and> (\<forall>x \<in> set (between ?led 2 4). inv_role x \<noteq> inv_role (?led ! 4))"
    and none: "\<not> (inv_role (?led ! 4) \<noteq> Agent \<and> (\<exists>x \<in> set (between ?led 2 4). inv_role x = Agent))"
    and tok: "token_of (inv_outcome (?led ! 2)) = Some ''m-1''"
    unfolding led by (simp_all add: between_def)
  from session_continuity [OF refl j] i same
  have "inv_resume (?led ! 4) =
          (if inv_role (?led ! 4) \<noteq> Agent \<and> (\<exists>x \<in> set (between ?led 2 4). inv_role x = Agent)
           then None else token_of (inv_outcome (?led ! 2)))"
    by blast
  with none tok show ?thesis
    by simp
qed

text \<open>
  The claim as written fails for the reviewers: here the manager's first invocation
  succeeds with session \<^verbatim>\<open>m-1\<close> and returns a fail verdict, the agent is invoked
  again, and the manager's next invocation is called without a session.
\<close>

theorem manager_session_not_carried_over_agent_retry:
  "map (\<lambda>x. (inv_role x, inv_resume x, inv_outcome x))
     (snd (execute_agent_flow (task_config 1 1 0 False)
        (script [answers ''a-1'' None [],
                 answers ''m-1'' (Some (verdict ''fail'' [''incomplete''] None)) [],
                 answers ''a-2'' None [],
                 answers ''m-2'' (Some (verdict ''pass'' [] None)) []]))) =
   [(Agent, None, Gateway_ok (Some ''a-1'')),
    (Manager, None, Gateway_ok (Some ''m-1'')),
    (Agent, Some ''a-1'', Gateway_ok (Some ''a-2'')),
    (Manager, None, Gateway_ok (Some ''m-2''))]"
  by code_simp


section \<open>Verdicts\<close>







section \<open>QA rounds asked for by the manager\<close>







section \<open>The stage pipelines\<close>


lemma run_item_awaiting:
  "awaiting_human state \<Longrightarrow> run_item stp upd env state = (state, None)"
  by (simp add: run_item_def Let_def)

lemma passes_skip:
  "(\<And>env. run env state = (state, None)) \<Longrightarrow> passes run envs state = (state, [])"
  by (induction envs) simp_all



text \<open>
  Claim C8, as amended. For the intake and triage stages of a bug and the intake and
  review stages of a feedback item, a result file with the status \<^verbatim>\<open>needs_info\<close>
  leaves \<^verbatim>\<open>pending_stage\<close> at that stage and sets \<^verbatim>\<open>awaiting_human\<close>; for the
  last stage (repro, plan) the status \<^verbatim>\<open>blocked\<close> does so. An item with
  \<^verbatim>\<open>awaiting_human\<close> set is skipped by every later pass, in whatever environment: no
  stage runs and the state stays as it is.
\<close>

theorem waiting_for_human:
  "((stage = ''intake'' \<or> stage = ''triage'') \<and> files stage = File_status st
      \<and> lower (or_empty st) = ''needs_info'' \<longrightarrow>
    (\<exists>s'. update_bug_state_after_stage stage files state = Inr s'
       \<and> pending_stage s' = stage \<and> awaiting_human s'))
   \<and> ((stage = ''intake'' \<or> stage = ''review'') \<and> files stage = File_status st
      \<and> lower (or_empty st) = ''needs_info'' \<longrightarrow>
    (\<exists>s'. update_feedback_state_after_stage stage files state = Inr s'
       \<and> pending_stage s' = stage \<and> awaiting_human s'))
   \<and> (files ''repro'' = File_status st \<and> lower (or_empty st) = ''blocked'' \<longrightarrow>
    (\<exists>s'. update_bug_state_after_stage ''repro'' files state = Inr s'
       \<and> pending_stage s' = ''repro'' \<and> awaiting_human s'))
   \<and> (files ''plan'' = File_status st \<and> lower (or_empty st) = ''blocked'' \<longrightarrow>
    (\<exists>s'. update_feedback_state_after_stage ''plan'' files state = Inr s'
       \<and> pending_stage s' = ''plan'' \<and> awaiting_human s'))
   \<and> (awaiting_human state \<longrightarrow>
    (\<forall>envs. passes run_bug_item envs state = (state, [])
         \<and> passes run_feedback_item envs state = (state, [])))"
proof (intro conjI impI allI)
  assume "(stage = ''intake'' \<or> stage = ''triage'') \<and> files stage = File_status st
      \<and> lower (or_empty st) = ''needs_info''"
  then show "\<exists>s'. update_bug_state_after_stage stage files state = Inr s'
       \<and> pending_stage s' = stage \<and> awaiting_human s'"
    by (auto simp: update_bug_state_after_stage_def Let_def)
next
  assume "(stage = ''intake'' \<or> stage = ''review'') \<and> files stage = File_status st
      \<and> lower (or_empty st) = ''needs_info''"
  then show "\<exists>s'. update_feedback_state_after_stage stage files state = Inr s'
       \<and> pending_stage s' = stage \<and> awaiting_human s'"
    by (auto simp: update_feedback_state_after_stage_def Let_def)
next
  assume "files ''repro'' = File_status st \<and> lower (or_empty st) = ''blocked''"
  then show "\<exists>s'. update_bug_state_after_stage ''repro'' files state = Inr s'
       \<and> pending_stage s' = ''repro'' \<and> awaiting_human s'"
    by (auto simp: update_bug_state_after_stage_def Let_def)
next
  assume "files ''plan'' = File_status st \<and> lower (or_empty st) = ''blocked''"
  then show "\<exists>s'. update_feedback_state_after_stage ''plan'' files state = Inr s'
       \<and> pending_stage s' = ''plan'' \<and> awaiting_human s'"
    by (auto simp: update_feedback_state_after_stage_def Let_def)
next
  fix envs
  assume w: "awaiting_human state"
  show "passes run_bug_item envs state = (state, [])"
    by (rule passes_skip) (simp add: run_bug_item_def run_item_awaiting w)
  show "passes run_feedback_item envs state = (state, [])"
    by (rule passes_skip) (simp add: run_feedback_item_def run_item_awaiting w)
qed

theorem waiting_for_human_witness:
  "(\<exists>s'. update_bug_state_after_stage ''triage'' (\<lambda>stage. File_status (Some ''needs_info''))
        \<lparr>pending_stage = ''triage'', awaiting_human = False, awaiting_reason = None,
         history = []\<rparr> = Inr s'
      \<and> pending_stage s' = ''triage'' \<and> awaiting_human s')
   \<and> (\<exists>s'. update_feedback_state_after_stage ''intake'' (\<lambda>stage. File_status (Some ''needs_info''))
        \<lparr>pending_stage = ''intake'', awaiting_human = False, awaiting_reason = None,
         history = []\<rparr> = Inr s'
      \<and> pending_stage s' = ''intake'' \<and> awaiting_human s')
   \<and> (\<exists>s'. update_bug_state_after_stage ''repro'' (\<lambda>stage. File_status (Some ''blocked''))
        \<lparr>pending_stage = ''repro'', awaiting_human = False, awaiting_reason = None,
         history = []\<rparr> = Inr s'
      \<and> pending_stage s' = ''repro'' \<and> awaiting_human s')
   \<and> (\<exists>s'. update_feedback_state_after_stage ''plan'' (\<lambda>stage. File_status (Some ''blocked''))
        \<lparr>pending_stage = ''plan'', awaiting_human = False, awaiting_reason = None,
         history = []\<rparr> = Inr s'
      \<and> pending_stage s' = ''plan'' \<and> awaiting_human s')
   \<and> (\<forall>envs. passes run_bug_item envs
        \<lparr>pending_stage = ''triage'', awaiting_human = True,
         awaiting_reason = Some ''needs_info'', history = []\<rparr> =
       (\<lparr>pending_stage = ''triage'', awaiting_human = True,
         awaiting_reason = Some ''needs_info'', history = []\<rparr>, []))"
proof -
  have n: "lower (or_empty (Some ''needs_info'')) = ''needs_info''"
    and b: "lower (or_empty (Some ''blocked'')) = ''blocked''"
    by (simp_all add: or_empty_def lower_def lower_char_def)
  let ?w = "\<lparr>pending_stage = ''triage'', awaiting_human = True,
         awaiting_reason = Some ''needs_info'', history = []\<rparr>"
  have w: "awaiting_human ?w" by simp
  note t = waiting_for_human [where st = "Some ''needs_info''" and stage = "''triage''"
      and files = "\<lambda>stage. File_status (Some ''needs_info'')"]
  note i = waiting_for_human [where st = "Some ''needs_info''" and stage = "''intake''"
      and files = "\<lambda>stage. File_status (Some ''needs_info'')"]
  note r = waiting_for_human [where st = "Some ''blocked''"
      and files = "\<lambda>stage. File_status (Some ''blocked'')"]
  note p = waiting_for_human [where state = ?w]
  from t n have 1: "\<exists>s'. update_bug_state_after_stage ''triage'' (\<lambda>stage. File_status (Some ''needs_info''))
        \<lparr>pending_stage = ''triage'', awaiting_human = False, awaiting_reason = None,
         history = []\<rparr> = Inr s'
      \<and> pending_stage s' = ''triage'' \<and> awaiting_human s'"
    by blast
  from i n have 2: "\<exists>s'. update_feedback_state_after_stage ''intake'' (\<lambda>stage. File_status (Some ''needs_info''))
        \<lparr>pending_stage = ''intake'', awaiting_human = False, awaiting_reason = None,
         history = []\<rparr> = Inr s'
      \<and> pending_stage s' = ''intake'' \<and> awaiting_human s'"
    by blast
  from r b have 3: "\<exists>s'. update_bug_state_after_stage ''repro'' (\<lambda>stage. File_status (Some ''blocked''))
        \<lparr>pending_stage = ''repro'', awaiting_human = False, awaiting_reason = None,
         history = []\<rparr> = Inr s'
      \<and> pending_stage s' = ''repro'' \<and> awaiting_human s'"
    by blast
  from r b have 4: "\<exists>s'. update_feedback_state_after_stage ''plan'' (\<lambda>stage. File_status (Some ''blocked''))
        \<lparr>pending_stage = ''plan'', awaiting_human = False, awaiting_reason = None,
         history = []\<rparr> = Inr s'
      \<and> pending_stage s' = ''plan'' \<and> awaiting_human s'"
    by blast
  from p w have 5: "\<forall>envs. passes run_bug_item envs ?w = (?w, [])"
    by blast
  from 1 2 3 4 5 show ?thesis
    by blast
qed

text \<open>
  The claim as written fails at the last stage: a repro result with the status
  \<^verbatim>\<open>needs_info\<close> moves the bug to \<^verbatim>\<open>done\<close> and leaves \<^verbatim>\<open>awaiting_human\<close>
  false.
\<close>

theorem needs_info_at_repro_is_done:
  "update_bug_state_after_stage ''repro'' (\<lambda>stage. File_status (Some ''needs_info''))
     \<lparr>pending_stage = ''repro'', awaiting_human = False, awaiting_reason = None, history = []\<rparr> =
   Inr \<lparr>pending_stage = ''done'', awaiting_human = False, awaiting_reason = None,
        history = [(''repro'', ''needs_info'')]\<rparr>"
  by (simp add: update_bug_state_after_stage_def or_empty_def lower_def lower_char_def)


section \<open>The task graph: building the dictionaries\<close>

lemma update_new_key:
  "k \<notin> fst ` set al \<Longrightarrow> AList.update k v al = al @ [(k, v)]"
  by (induction al) auto

lemma foldl_update_distinct:
  "distinct (map fst acc @ map te_task_id ts) \<Longrightarrow>
   foldl (\<lambda>d t. AList.update (te_task_id t) (f t) d) acc ts =
     acc @ map (\<lambda>t. (te_task_id t, f t)) ts"
proof (induction ts arbitrary: acc)
  case Nil
  then show ?case by simp
next
  case (Cons t ts)
  from Cons.prems have new: "te_task_id t \<notin> fst ` set acc"
    by auto
  from Cons.prems have "distinct (map fst (acc @ [(te_task_id t, f t)]) @ map te_task_id ts)"
    by auto
  from Cons.IH [OF this] new show ?case
    by (simp add: update_new_key)
qed

lemma dict_of_tasks_distinct:
  "distinct (task_ids tasks) \<Longrightarrow>
   dict_of_tasks f tasks = map (\<lambda>t. (te_task_id t, f t)) tasks"
  using foldl_update_distinct [of "[]" tasks f]
  by (simp add: dict_of_tasks_def task_ids_def)

lemma map_fst_map_entry [simp]: "map fst (AList.map_entry k f al) = map fst al"
  by (induction al) auto

lemma neighbours_map_entry:
  "neighbours (AList.map_entry dep (\<lambda>l. l @ [tid]) adj) d =
     (if d = dep \<and> dep \<in> set (map fst adj) then neighbours adj d @ [tid] else neighbours adj d)"
  by (auto simp: neighbours_def map_of_map_entry split: option.splits
        dest: map_of_SomeD weak_map_of_SomeI simp: map_of_eq_None_iff [symmetric])

lemma add_deps_result:
  "add_deps index tid deps (indeg, adj) = Inr (indeg', adj') \<Longrightarrow>
     map fst indeg' = map fst indeg \<and> map fst adj' = map fst adj
     \<and> (\<forall>k. map_of indeg' k =
           map_option (\<lambda>v. v + (if k = tid then int (length deps) else 0)) (map_of indeg k))
     \<and> (\<forall>d k. d \<in> set (map fst adj) \<longrightarrow>
           count_list (neighbours adj' d) k =
             count_list (neighbours adj d) k + (if k = tid then count_list deps d else 0))
     \<and> (\<forall>d. set (neighbours adj' d) \<subseteq> set (neighbours adj d) \<union> {tid})"
proof (induction deps arbitrary: indeg adj)
  case Nil
  then show ?case
    by (auto simp: option.map_ident)
next
  case (Cons dep deps)
  let ?i = "AList.map_entry tid (\<lambda>d. d + 1) indeg"
  let ?a = "AList.map_entry dep (\<lambda>l. l @ [tid]) adj"
  from Cons.prems have known: "map_of index dep \<noteq> None"
    and rec: "add_deps index tid deps (?i, ?a) = Inr (indeg', adj')"
    by (auto split: if_splits)
  note IH = Cons.IH [OF rec]
  have 1: "map fst indeg' = map fst indeg \<and> map fst adj' = map fst adj"
    using IH by simp
  have 2: "map_of indeg' k =
           map_option (\<lambda>v. v + (if k = tid then int (length (dep # deps)) else 0)) (map_of indeg k)" for k
    using IH by (cases "map_of indeg k") (auto simp: map_of_map_entry)
  have 3: "count_list (neighbours adj' d) k =
             count_list (neighbours adj d) k + (if k = tid then count_list (dep # deps) d else 0)"
    if "d \<in> set (map fst adj)" for d k
    using IH that by (auto simp: neighbours_map_entry)
  have 4: "set (neighbours adj' d) \<subseteq> set (neighbours adj d) \<union> {tid}" for d
  proof -
    from IH have "set (neighbours adj' d) \<subseteq> set (neighbours ?a d) \<union> {tid}" by blast
    then show ?thesis by (auto simp: neighbours_map_entry split: if_splits)
  qed
  from 1 2 3 4 show ?case by blast
qed


lemma add_deps_succeeds:
  "\<forall>d \<in> set deps. map_of index d \<noteq> None \<Longrightarrow> \<exists>st'. add_deps index tid deps st = Inr st'"
  by (induction index tid deps st rule: add_deps.induct) auto

lemma deps_of_Cons:
  "deps_of (t # ts) k = (if te_task_id t = k then te_deps t @ deps_of ts k else deps_of ts k)"
  by (simp add: deps_of_def)

lemma add_tasks_result:
  "add_tasks index ts (indeg, adj) = Inr (indeg', adj') \<Longrightarrow>
     map fst indeg' = map fst indeg \<and> map fst adj' = map fst adj
     \<and> (\<forall>k. map_of indeg' k = map_option (\<lambda>v. v + int (length (deps_of ts k))) (map_of indeg k))
     \<and> (\<forall>d k. d \<in> set (map fst adj) \<longrightarrow>
           count_list (neighbours adj' d) k =
             count_list (neighbours adj d) k + count_list (deps_of ts k) d)
     \<and> (\<forall>d. set (neighbours adj' d) \<subseteq> set (neighbours adj d) \<union> set (task_ids ts))"
proof (induction ts arbitrary: indeg adj)
  case Nil
  then show ?case
    by (auto simp: option.map_ident deps_of_def)
next
  case (Cons t ts)
  from Cons.prems obtain indeg1 adj1
    where one: "add_deps index (te_task_id t) (te_deps t) (indeg, adj) = Inr (indeg1, adj1)"
      and rec: "add_tasks index ts (indeg1, adj1) = Inr (indeg', adj')"
    by (auto split: sum.splits)
  note A = add_deps_result [OF one]
  note IH = Cons.IH [OF rec]
  have 1: "map fst indeg' = map fst indeg \<and> map fst adj' = map fst adj"
    using A IH by simp
  have 2: "map_of indeg' k = map_option (\<lambda>v. v + int (length (deps_of (t # ts) k))) (map_of indeg k)" for k
    using A IH by (cases "map_of indeg k") (auto simp: deps_of_Cons)
  have 3: "count_list (neighbours adj' d) k =
             count_list (neighbours adj d) k + count_list (deps_of (t # ts) k) d"
    if "d \<in> set (map fst adj)" for d k
    using A IH that by (auto simp: deps_of_Cons)
  have 4: "set (neighbours adj' d) \<subseteq> set (neighbours adj d) \<union> set (task_ids (t # ts))" for d
  proof -
    from IH have "set (neighbours adj' d) \<subseteq> set (neighbours adj1 d) \<union> set (task_ids ts)" by blast
    moreover from A have "set (neighbours adj1 d) \<subseteq> set (neighbours adj d) \<union> {te_task_id t}" by blast
    ultimately show ?thesis by (auto simp: task_ids_def)
  qed
  from 1 2 3 4 show ?case by blast
qed


lemma add_tasks_succeeds:
  "\<forall>t \<in> set ts. \<forall>d \<in> set (te_deps t). map_of index d \<noteq> None \<Longrightarrow>
   \<exists>st'. add_tasks index ts st = Inr st'"
proof (induction ts arbitrary: st)
  case Nil
  then show ?case by simp
next
  case (Cons t ts)
  from Cons.prems add_deps_succeeds [of "te_deps t" index "te_task_id t" st]
  obtain st1 where "add_deps index (te_task_id t) (te_deps t) st = Inr st1"
    by auto
  with Cons.IH [of st1] Cons.prems show ?case
    by auto
qed

section \<open>The task graph: relaxing the neighbours\<close>

lemma relax_map_of:
  "relax ns indeg ready = (indeg', ready') \<Longrightarrow>
     map fst indeg' = map fst indeg
     \<and> (\<forall>k. map_of indeg' k = map_option (\<lambda>v. v - int (count_list ns k)) (map_of indeg k))"
proof (induction ns arbitrary: indeg ready)
  case Nil
  then show ?case
    by (auto simp: option.map_ident)
next
  case (Cons n ns)
  let ?i = "AList.map_entry n (\<lambda>d. d - 1) indeg"
  from Cons.prems obtain r1 where "relax ns ?i r1 = (indeg', ready')"
    by (auto simp: Let_def split: if_splits)
  from Cons.IH [OF this] have keys: "map fst indeg' = map fst indeg"
    and vals: "\<And>k. map_of indeg' k = map_option (\<lambda>v. v - int (count_list ns k)) (map_of ?i k)"
    by simp_all
  have "map_of indeg' k = map_option (\<lambda>v. v - int (count_list (n # ns) k)) (map_of indeg k)" for k
    unfolding vals by (cases "map_of indeg k") (auto simp: map_of_map_entry)
  with keys show ?case by blast
qed

lemma map_entry_zero:
  "map_of (AList.map_entry n (\<lambda>d. d - 1) indeg) n = Some (0::int) \<longleftrightarrow> map_of indeg n = Some 1"
  by (cases "map_of indeg n") (auto simp: map_of_map_entry)

lemma zeroed_Cons:
  "zeroed (n # ns) indeg =
     (if map_of indeg n = Some 1 then {n} else {})
     \<union> zeroed ns (AList.map_entry n (\<lambda>d. d - 1) indeg)"
proof (intro set_eqI iffI)
  fix k
  assume "k \<in> zeroed (n # ns) indeg"
  then obtain v where k: "k = n \<or> k \<in> set ns" and v: "map_of indeg k = Some v" "0 < v"
    "v \<le> int (count_list (n # ns) k)"
    by (auto simp: zeroed_def)
  show "k \<in> (if map_of indeg n = Some 1 then {n} else {})
     \<union> zeroed ns (AList.map_entry n (\<lambda>d. d - 1) indeg)"
  proof (cases "k = n")
    case False
    with k v show ?thesis
      by (auto simp: zeroed_def map_of_map_entry)
  next
    case True
    show ?thesis
    proof (cases "v = 1")
      case True
      with \<open>k = n\<close> v show ?thesis by simp
    next
      case False
      with v True have c: "0 < count_list ns n" by simp
      then have "n \<in> set ns"
        by (metis count_list_0_iff less_numeral_extra(3))
      with v True False show ?thesis
        by (auto simp: zeroed_def map_of_map_entry)
    qed
  qed
next
  fix k
  assume "k \<in> (if map_of indeg n = Some 1 then {n} else {})
     \<union> zeroed ns (AList.map_entry n (\<lambda>d. d - 1) indeg)"
  then show "k \<in> zeroed (n # ns) indeg"
    by (cases "k = n") (auto simp: zeroed_def map_of_map_entry split: if_splits option.splits)
qed

lemma zeroed_after_zero:
  "map_of indeg n = Some 1 \<Longrightarrow> n \<notin> zeroed ns (AList.map_entry n (\<lambda>d. d - 1) indeg)"
  by (auto simp: zeroed_def map_of_map_entry)

lemma relax_ready:
  "relax ns indeg ready = (indeg', ready') \<Longrightarrow>
     set ready' = set ready \<union> zeroed ns indeg
     \<and> (sorted ready \<longrightarrow> sorted ready')
     \<and> (distinct ready \<and> set ready \<inter> zeroed ns indeg = {} \<longrightarrow> distinct ready')"
proof (induction ns arbitrary: indeg ready)
  case Nil
  then show ?case
    by (simp add: zeroed_def)
next
  case (Cons n ns)
  let ?i = "AList.map_entry n (\<lambda>d. d - 1) indeg"
  show ?case
  proof (cases "map_of indeg n = Some 1")
    case True
    with Cons.prems have rec: "relax ns ?i (insort n ready) = (indeg', ready')"
      by (simp add: Let_def map_entry_zero)
    have z: "zeroed (n # ns) indeg = insert n (zeroed ns ?i)"
      using True by (simp add: zeroed_Cons)
    have nz: "n \<notin> zeroed ns ?i"
      by (rule zeroed_after_zero [OF True])
    from Cons.IH [OF rec]
    have s: "set ready' = insert n (set ready) \<union> zeroed ns ?i"
      and o: "sorted (insort n ready) \<longrightarrow> sorted ready'"
      and d: "distinct (insort n ready) \<and> set (insort n ready) \<inter> zeroed ns ?i = {}
          \<longrightarrow> distinct ready'"
      by (simp_all add: set_insort_key)
    have 1: "set ready' = set ready \<union> zeroed (n # ns) indeg"
      unfolding s z by blast
    have 2: "sorted ready \<longrightarrow> sorted ready'"
      using o by (simp add: sorted_insort)
    have 3: "distinct ready \<and> set ready \<inter> zeroed (n # ns) indeg = {} \<longrightarrow> distinct ready'"
    proof
      assume a: "distinct ready \<and> set ready \<inter> zeroed (n # ns) indeg = {}"
      then have "n \<notin> set ready" and "set ready \<inter> zeroed ns ?i = {}"
        unfolding z by blast+
      with a nz have "distinct (insort n ready) \<and> set (insort n ready) \<inter> zeroed ns ?i = {}"
        by (simp add: distinct_insort set_insort_key)
      with d show "distinct ready'" by blast
    qed
    from 1 2 3 show ?thesis by blast
  next
    case False
    with Cons.prems have rec: "relax ns ?i ready = (indeg', ready')"
      by (simp add: Let_def map_entry_zero)
    have z: "zeroed (n # ns) indeg = zeroed ns ?i"
      using False by (simp add: zeroed_Cons)
    from Cons.IH [OF rec] show ?thesis
      unfolding z .
  qed
qed

section \<open>The task graph: the invariant of the loop\<close>

lemma filter_without:
  "c \<notin> A \<Longrightarrow>
   length (filter (\<lambda>d. d \<notin> A) xs) =
     length (filter (\<lambda>d. d \<notin> insert c A) xs) + count_list xs c"
  by (induction xs) auto

lemma count_list_pos_iff: "0 < count_list xs x \<longleftrightarrow> x \<in> set xs"
  by (induction xs) auto

lemma filter_empty_subset: "length (filter (\<lambda>d. d \<notin> A) xs) = 0 \<longleftrightarrow> set xs \<subseteq> A"
  by (induction xs) auto

lemma kahn_step:
  assumes inv: "kahn_inv tasks indeg (current # ready) ordered"
    and adj: "adjacency_ok tasks adj"
    and rel: "relax (neighbours adj current) indeg ready = (indeg', ready')"
  shows "kahn_inv tasks indeg' ready' (ordered @ [current])"
proof -
  let ?ids = "set (task_ids tasks)"
  let ?D = "deps_of tasks"
  let ?ns = "neighbours adj current"
  let ?old = "\<lambda>k. length (filter (\<lambda>d. d \<notin> set ordered) (?D k))"
  let ?new = "\<lambda>k. length (filter (\<lambda>d. d \<notin> set (ordered @ [current])) (?D k))"
  from inv have keys: "map fst indeg = task_ids tasks"
    and deg: "\<And>k. k \<in> ?ids \<Longrightarrow> map_of indeg k = Some (int (?old k))"
    and srt: "sorted (current # ready)"
    and dist: "distinct (ordered @ current # ready)"
    and sub: "set (ordered @ current # ready) \<subseteq> ?ids"
    and elig: "\<And>k. k \<in> ?ids \<Longrightarrow>
        (k \<in> set ordered \<union> set (current # ready)) = (set (?D k) \<subseteq> set ordered)"
    and before: "\<And>i. i < length ordered \<Longrightarrow> set (?D (ordered ! i)) \<subseteq> set (take i ordered)"
    and least: "\<And>i k. i < length ordered \<Longrightarrow> k \<in> ?ids \<Longrightarrow>
        k \<notin> set (take i ordered) \<Longrightarrow> set (?D k) \<subseteq> set (take i ordered) \<Longrightarrow> ordered ! i \<le> k"
    unfolding kahn_inv_def by blast+
  from adj have cnt: "\<And>k. count_list ?ns k = count_list (?D k) current"
    and nsub: "set ?ns \<subseteq> ?ids"
    unfolding adjacency_ok_def by blast+
  from dist have cur_new: "current \<notin> set ordered" and cur_ready: "current \<notin> set ready"
    by auto
  from sub have cur_id: "current \<in> ?ids" by simp
  from elig [OF cur_id] have cur_deps: "set (?D current) \<subseteq> set ordered" by simp
  have split: "?old k = ?new k + count_list (?D k) current" for k
    using filter_without [OF cur_new, of "?D k"] by simp
  from relax_map_of [OF rel]
  have keys': "map fst indeg' = task_ids tasks"
    and vals: "\<And>k. map_of indeg' k = map_option (\<lambda>v. v - int (count_list ?ns k)) (map_of indeg k)"
    using keys by simp_all
  have deg': "map_of indeg' k = Some (int (?new k))" if "k \<in> ?ids" for k
    using vals [of k] deg [OF that] split [of k] cnt [of k] by simp
  have zeroed: "zeroed ?ns indeg =
      {k \<in> ?ids. \<not> set (?D k) \<subseteq> set ordered \<and> set (?D k) \<subseteq> set (ordered @ [current])}"
  proof (intro set_eqI iffI)
    fix k
    assume "k \<in> zeroed ?ns indeg"
    then obtain v where k: "k \<in> set ?ns" and v: "map_of indeg k = Some v" "0 < v"
      "v \<le> int (count_list ?ns k)"
      by (auto simp: zeroed_def)
    from k nsub have id: "k \<in> ?ids" by blast
    from v(1) deg [OF id] have "int (?old k) = v" by simp
    with v(2,3) cnt [of k] split [of k] have "0 < ?old k" and "?new k = 0"
      by linarith+
    then have "\<not> set (?D k) \<subseteq> set ordered" and "set (?D k) \<subseteq> set (ordered @ [current])"
      using filter_empty_subset [of "set ordered" "?D k"]
        filter_empty_subset [of "set (ordered @ [current])" "?D k"]
      by simp_all
    with id show "k \<in> {k \<in> ?ids. \<not> set (?D k) \<subseteq> set ordered
        \<and> set (?D k) \<subseteq> set (ordered @ [current])}"
      by blast
  next
    fix k
    assume "k \<in> {k \<in> ?ids. \<not> set (?D k) \<subseteq> set ordered
        \<and> set (?D k) \<subseteq> set (ordered @ [current])}"
    then have id: "k \<in> ?ids" and a: "\<not> set (?D k) \<subseteq> set ordered"
      and b: "set (?D k) \<subseteq> set (ordered @ [current])"
      by blast+
    from a b have "current \<in> set (?D k)" by auto
    then have c: "0 < count_list (?D k) current"
      by (simp add: count_list_pos_iff)
    with cnt [of k] have "k \<in> set ?ns"
      by (simp add: count_list_pos_iff [symmetric])
    moreover from a have "0 < ?old k"
      using filter_empty_subset [of "set ordered" "?D k"] by simp
    moreover from b have "?new k = 0"
      using filter_empty_subset [of "set (ordered @ [current])" "?D k"] by simp
    ultimately show "k \<in> zeroed ?ns indeg"
      using deg [OF id] split [of k] cnt [of k] by (simp add: zeroed_def)
  qed
  have fresh: "k \<notin> set ordered \<union> set (current # ready)" if "k \<in> zeroed ?ns indeg" for k
    using that elig [of k] unfolding zeroed by blast
  from relax_ready [OF rel]
  have rset: "set ready' = set ready \<union> zeroed ?ns indeg"
    and rsort: "sorted ready \<longrightarrow> sorted ready'"
    and rdist: "distinct ready \<and> set ready \<inter> zeroed ?ns indeg = {} \<longrightarrow> distinct ready'"
    by blast+
  from srt rsort have 3: "sorted ready'" by simp
  from dist fresh rdist have "distinct ready'" by auto
  with dist fresh rset have 4: "distinct ((ordered @ [current]) @ ready')"
    by auto
  have 5: "set ((ordered @ [current]) @ ready') \<subseteq> ?ids"
    using sub rset zeroed by auto
  have 6: "(k \<in> set (ordered @ [current]) \<union> set ready') = (set (?D k) \<subseteq> set (ordered @ [current]))"
    if "k \<in> ?ids" for k
  proof -
    have "(k \<in> set (ordered @ [current]) \<union> set ready') =
        (k \<in> set ordered \<union> set (current # ready) \<or> k \<in> zeroed ?ns indeg)"
      using rset by auto
    also have "\<dots> = (set (?D k) \<subseteq> set ordered \<or> k \<in> zeroed ?ns indeg)"
      using elig [OF that] by simp
    also have "\<dots> = (set (?D k) \<subseteq> set (ordered @ [current]))"
      using that unfolding zeroed by auto
    finally show ?thesis .
  qed
  have 7: "set (?D ((ordered @ [current]) ! i)) \<subseteq> set (take i (ordered @ [current]))"
    if "i < length (ordered @ [current])" for i
  proof (cases "i < length ordered")
    case True
    with before [OF True] show ?thesis by (simp add: nth_append)
  next
    case False
    with that have "i = length ordered" by simp
    with cur_deps show ?thesis by simp
  qed
  have 8: "(ordered @ [current]) ! i \<le> k"
    if "i < length (ordered @ [current])" and "k \<in> ?ids"
      and "k \<notin> set (take i (ordered @ [current]))"
      and "set (?D k) \<subseteq> set (take i (ordered @ [current]))" for i k
  proof (cases "i < length ordered")
    case True
    with least [OF True that(2)] that(3,4) show ?thesis by (simp add: nth_append)
  next
    case False
    with that(1) have i: "i = length ordered" by simp
    with that(3,4) have "k \<notin> set ordered" and "set (?D k) \<subseteq> set ordered" by simp_all
    with elig [OF that(2)] have "k \<in> set (current # ready)" by blast
    with srt have "current \<le> k" by auto
    with i show ?thesis by simp
  qed
  from keys' deg' 3 4 5 6 7 8 show ?thesis
    unfolding kahn_inv_def by blast
qed

lemma drain_inv:
  "drain adj indeg ready ordered = (indeg', ordered') \<Longrightarrow> adjacency_ok tasks adj \<Longrightarrow>
   kahn_inv tasks indeg ready ordered \<Longrightarrow> kahn_inv tasks indeg' [] ordered'"
proof (induction adj indeg ready ordered rule: drain.induct)
  case (1 adjacency indegree ordered_ids)
  then show ?case by simp
next
  case (2 adjacency indegree current ready ordered_ids)
  obtain i1 r1 where rel: "relax (neighbours adjacency current) indegree ready = (i1, r1)"
    by (cases "relax (neighbours adjacency current) indegree ready")
  with "2.prems"(1) have rec: "drain adjacency i1 r1 (ordered_ids @ [current]) = (indeg', ordered')"
    by simp
  from kahn_step [OF "2.prems"(3,2) rel]
  show ?case
    by (rule "2.IH" [OF rel [symmetric] rec "2.prems"(2)])
qed

section \<open>The task graph: from the list of tasks to the result\<close>

lemma dep_edges_iff: "(d, k) \<in> dep_edges tasks \<longleftrightarrow> d \<in> set (deps_of tasks k)"
  by (auto simp: dep_edges_def deps_of_def)


lemma deps_of_unknown: "k \<notin> set (task_ids tasks) \<Longrightarrow> deps_of tasks k = []"
  by (auto simp: deps_of_def task_ids_def filter_empty_conv)

lemma deps_of_task:
  "distinct (task_ids tasks) \<Longrightarrow> t \<in> set tasks \<Longrightarrow> deps_of tasks (te_task_id t) = te_deps t"
proof (induction tasks)
  case Nil
  then show ?case by simp
next
  case (Cons a tasks)
  show ?case
  proof (cases "t = a")
    case True
    with Cons.prems(1) have "te_task_id a \<notin> set (task_ids tasks)"
      by (simp add: task_ids_def)
    with True show ?thesis
      by (simp add: deps_of_Cons deps_of_unknown)
  next
    case False
    with Cons.prems have t: "t \<in> set tasks" and d: "distinct (task_ids tasks)"
      and "te_task_id a \<notin> set (task_ids tasks)"
      by (simp_all add: task_ids_def)
    then have "te_task_id a \<noteq> te_task_id t"
      by (auto simp: task_ids_def)
    with Cons.IH [OF d t] show ?thesis
      by (simp add: deps_of_Cons)
  qed
qed

lemma deps_of_known:
  "\<forall>t \<in> set tasks. set (te_deps t) \<subseteq> set (task_ids tasks) \<Longrightarrow>
   set (deps_of tasks k) \<subseteq> set (task_ids tasks)"
  by (auto simp: deps_of_def)

lemma index_lookup:
  assumes "distinct (task_ids tasks)" and "t \<in> set tasks"
  shows "map_of (dict_of_tasks (\<lambda>t. t) tasks) (te_task_id t) = Some t"
proof -
  have "distinct (map fst (map (\<lambda>t. (te_task_id t, t)) tasks))"
    using assms(1) by (simp add: task_ids_def comp_def)
  moreover have "(te_task_id t, t) \<in> set (map (\<lambda>t. (te_task_id t, t)) tasks)"
    using assms(2) by simp
  ultimately have "map_of (map (\<lambda>t. (te_task_id t, t)) tasks) (te_task_id t) = Some t"
    by (rule map_of_is_SomeI)
  then show ?thesis
    by (simp only: dict_of_tasks_distinct [OF assms(1)])
qed

lemma index_None:
  assumes "distinct (task_ids tasks)"
  shows "(map_of (dict_of_tasks (\<lambda>t. t) tasks) k = None) = (k \<notin> set (task_ids tasks))"
proof -
  have "fst ` set (map (\<lambda>t. (te_task_id t, t)) tasks) = set (task_ids tasks)"
    by (simp add: task_ids_def image_image)
  then show ?thesis
    by (simp only: dict_of_tasks_distinct [OF assms] map_of_eq_None_iff)
qed

lemma zero_keys:
  assumes "distinct (map fst al)"
  shows "set (map fst (filter (\<lambda>(k, d). d = (0::int)) al)) = {k. map_of al k = Some 0}"
proof (intro set_eqI iffI)
  fix k
  assume "k \<in> set (map fst (filter (\<lambda>(k, d). d = 0) al))"
  then have "(k, 0) \<in> set al" by auto
  from map_of_is_SomeI [OF assms this] show "k \<in> {k. map_of al k = Some 0}" by simp
next
  fix k
  assume "k \<in> {k. map_of al k = Some 0}"
  then have "(k, 0) \<in> set al" by (auto dest: map_of_SomeD)
  then show "k \<in> set (map fst (filter (\<lambda>(k, d). d = 0) al))" by force
qed

lemma build_and_start:
  assumes dist: "distinct (task_ids tasks)"
    and known: "\<forall>t \<in> set tasks. set (te_deps t) \<subseteq> set (task_ids tasks)"
  shows "\<exists>indeg adj. add_tasks (dict_of_tasks (\<lambda>t. t) tasks) tasks
            (dict_of_tasks (\<lambda>t. 0) tasks, dict_of_tasks (\<lambda>t. []) tasks) = Inr (indeg, adj)
          \<and> adjacency_ok tasks adj
          \<and> kahn_inv tasks indeg (sort (map fst (filter (\<lambda>(k, d). d = 0) indeg))) []"
proof -
  let ?index = "dict_of_tasks (\<lambda>t. t) tasks"
  let ?i0 = "dict_of_tasks (\<lambda>t. 0::int) tasks"
  let ?a0 = "dict_of_tasks (\<lambda>t. []::string list) tasks"
  have i0: "?i0 = map (\<lambda>t. (te_task_id t, 0)) tasks" and a0: "?a0 = map (\<lambda>t. (te_task_id t, [])) tasks"
    using dist by (simp_all add: dict_of_tasks_distinct)
  have ki: "map fst ?i0 = task_ids tasks" and ka: "map fst ?a0 = task_ids tasks"
    by (simp_all add: i0 a0 task_ids_def comp_def)
  have vi: "map_of ?i0 k = Some 0" if "k \<in> set (task_ids tasks)" for k
  proof -
    from that ki obtain v where "map_of ?i0 k = Some v"
      by (metis map_of_eq_None_iff not_None_eq set_map)
    moreover from this have "v = 0"
      by (auto simp: i0 dest!: map_of_SomeD)
    ultimately show ?thesis by simp
  qed
  have na: "neighbours ?a0 d = []" for d
  proof (cases "map_of ?a0 d")
    case None
    then show ?thesis by (simp add: neighbours_def)
  next
    case (Some l)
    then have "l = []" by (auto simp: a0 dest!: map_of_SomeD)
    with Some show ?thesis by (simp add: neighbours_def)
  qed
  from known have "\<forall>t \<in> set tasks. \<forall>d \<in> set (te_deps t). map_of ?index d \<noteq> None"
    using index_None [OF dist] by blast
  from add_tasks_succeeds [OF this, of "(?i0, ?a0)"]
  obtain indeg adj where run: "add_tasks ?index tasks (?i0, ?a0) = Inr (indeg, adj)"
    by (metis surj_pair)
  note R = add_tasks_result [OF run]
  from R ki ka have keys: "map fst indeg = task_ids tasks" and akeys: "map fst adj = task_ids tasks"
    by simp_all
  have deg: "map_of indeg k = Some (int (length (deps_of tasks k)))" if "k \<in> set (task_ids tasks)" for k
    using R vi [OF that] by simp
  have nb: "count_list (neighbours adj d) k = count_list (deps_of tasks k) d" for d k
  proof (cases "d \<in> set (task_ids tasks)")
    case True
    with R ka show ?thesis by (simp add: na)
  next
    case False
    with akeys have "map_of adj d = None"
      by (metis map_of_eq_None_iff set_map)
    moreover from False deps_of_known [OF known, of k] have "d \<notin> set (deps_of tasks k)"
      by blast
    ultimately show ?thesis by (simp add: neighbours_def)
  qed
  have ns: "set (neighbours adj d) \<subseteq> set (task_ids tasks)" for d
    using R na by auto
  have ok: "adjacency_ok tasks adj"
    using nb ns by (simp add: adjacency_ok_def)
  let ?ready = "sort (map fst (filter (\<lambda>(k, d). d = 0) indeg))"
  have dk: "distinct (map fst indeg)" using keys dist by simp
  have rset: "set ?ready = {k. map_of indeg k = Some 0}"
    using zero_keys [OF dk] by simp
  have rdist: "distinct ?ready"
    using dk by (simp add: distinct_map_filter)
  have rsub: "set ?ready \<subseteq> set (task_ids tasks)"
  proof
    fix k assume "k \<in> set ?ready"
    then have "map_of indeg k = Some 0" unfolding rset by simp
    then have "k \<in> set (map fst indeg)"
      by (metis map_of_eq_None_iff option.distinct(1) set_map)
    with keys show "k \<in> set (task_ids tasks)" by simp
  qed
  have elig: "(k \<in> set ?ready) = (set (deps_of tasks k) \<subseteq> {})" if "k \<in> set (task_ids tasks)" for k
    using deg [OF that] unfolding rset by simp
  have "kahn_inv tasks indeg ?ready []"
    unfolding kahn_inv_def
  proof (intro conjI ballI allI impI)
    show "map fst indeg = task_ids tasks" by (rule keys)
    show "sorted ?ready" by simp
    show "distinct ([] @ ?ready)" using rdist by simp
    show "set ([] @ ?ready) \<subseteq> set (task_ids tasks)" using rsub by simp
  next
    fix k assume "k \<in> set (task_ids tasks)"
    then show "map_of indeg k =
        Some (int (length (filter (\<lambda>d. d \<notin> set []) (deps_of tasks k))))"
      by (simp add: deg)
  next
    fix k assume "k \<in> set (task_ids tasks)"
    from elig [OF this]
    show "(k \<in> set [] \<union> set ?ready) = (set (deps_of tasks k) \<subseteq> set [])"
      by simp
  qed simp_all
  with run ok show ?thesis by blast
qed

lemma topologically_sort_run:
  assumes dist: "distinct (task_ids tasks)"
    and known: "\<forall>t \<in> set tasks. set (te_deps t) \<subseteq> set (task_ids tasks)"
  shows "\<exists>indeg' ordered. kahn_inv tasks indeg' [] ordered
    \<and> topologically_sort tasks =
        (if length ordered \<noteq> length tasks
         then Inl (Cyclic_dependencies (map fst (filter (\<lambda>(k, d). 0 < d) indeg')))
         else Inr (List.map_filter (map_of (dict_of_tasks (\<lambda>t. t) tasks)) ordered))"
proof -
  from build_and_start [OF dist known] obtain indeg adj
    where run: "add_tasks (dict_of_tasks (\<lambda>t. t) tasks) tasks
            (dict_of_tasks (\<lambda>t. 0) tasks, dict_of_tasks (\<lambda>t. []) tasks) = Inr (indeg, adj)"
      and ok: "adjacency_ok tasks adj"
      and start: "kahn_inv tasks indeg (sort (map fst (filter (\<lambda>(k, d). d = 0) indeg))) []"
    by blast
  obtain indeg' ordered
    where d: "drain adj indeg (sort (map fst (filter (\<lambda>(k, d). d = 0) indeg))) [] = (indeg', ordered)"
    by (cases "drain adj indeg (sort (map fst (filter (\<lambda>(k, d). d = 0) indeg))) []")
  from drain_inv [OF d ok start] have "kahn_inv tasks indeg' [] ordered" .
  moreover have "topologically_sort tasks =
        (if length ordered \<noteq> length tasks
         then Inl (Cyclic_dependencies (map fst (filter (\<lambda>(k, d). 0 < d) indeg')))
         else Inr (List.map_filter (map_of (dict_of_tasks (\<lambda>t. t) tasks)) ordered))"
    using run d by (simp add: topologically_sort_def)
  ultimately show ?thesis by blast
qed

section \<open>The task graph: the order and the cycle error\<close>

lemma ordered_complete_iff:
  assumes inv: "kahn_inv tasks indeg [] ordered" and dist: "distinct (task_ids tasks)"
  shows "(length ordered = length tasks) = (set ordered = set (task_ids tasks))"
proof -
  from inv have d: "distinct ordered" and s: "set ordered \<subseteq> set (task_ids tasks)"
    unfolding kahn_inv_def by simp_all
  have l: "length tasks = card (set (task_ids tasks))"
    using dist distinct_card [of "task_ids tasks"] by (simp add: task_ids_def)
  have c: "length ordered = card (set ordered)"
    using d by (simp add: distinct_card)
  show ?thesis
  proof
    assume "length ordered = length tasks"
    with l c have "card (set ordered) = card (set (task_ids tasks))" by simp
    with s show "set ordered = set (task_ids tasks)"
      by (simp add: card_subset_eq)
  next
    assume "set ordered = set (task_ids tasks)"
    with l c show "length ordered = length tasks" by simp
  qed
qed

lemma acyclic_complete:
  assumes inv: "kahn_inv tasks indeg [] ordered"
    and known: "\<forall>t \<in> set tasks. set (te_deps t) \<subseteq> set (task_ids tasks)"
    and acyc: "acyclic (dep_edges tasks)"
  shows "set ordered = set (task_ids tasks)"
proof (rule ccontr)
  assume neq: "set ordered \<noteq> set (task_ids tasks)"
  from inv have s: "set ordered \<subseteq> set (task_ids tasks)"
    and elig: "\<And>k. k \<in> set (task_ids tasks) \<Longrightarrow>
        (k \<in> set ordered) = (set (deps_of tasks k) \<subseteq> set ordered)"
    unfolding kahn_inv_def by simp_all
  from neq s obtain x where x: "x \<in> set (task_ids tasks) - set ordered"
    by blast
  have "finite (dep_edges tasks)" by (simp add: dep_edges_def)
  from finite_acyclic_wf [OF this acyc] have "wf (dep_edges tasks)" .
  from wfE_min [OF this x] obtain z where z: "z \<in> set (task_ids tasks) - set ordered"
    and min: "\<And>y. (y, z) \<in> dep_edges tasks \<Longrightarrow> y \<notin> set (task_ids tasks) - set ordered"
    by blast
  have "set (deps_of tasks z) \<subseteq> set ordered"
  proof
    fix d assume d: "d \<in> set (deps_of tasks z)"
    then have "(d, z) \<in> dep_edges tasks" by (simp add: dep_edges_iff)
    from min [OF this] deps_of_known [OF known, of z] d show "d \<in> set ordered"
      by blast
  qed
  with elig [of z] z show False by blast
qed




lemma map_filter_total:
  "\<forall>x \<in> set xs. f x \<noteq> None \<Longrightarrow> List.map_filter f xs = map (\<lambda>x. the (f x)) xs"
  by (induction xs) (auto simp: map_filter_simps)

lemma order_of_ids:
  assumes dist: "distinct (task_ids tasks)"
    and d: "distinct ordered" and s: "set ordered = set (task_ids tasks)"
    and order: "order = List.map_filter (map_of (dict_of_tasks (\<lambda>t. t) tasks)) ordered"
  shows "map te_task_id order = ordered \<and> mset order = mset tasks
    \<and> (\<forall>i < length order. te_deps (order ! i) = deps_of tasks (ordered ! i))"
proof -
  let ?index = "dict_of_tasks (\<lambda>t. t) tasks"
  let ?g = "\<lambda>k. the (map_of ?index k)"
  have g: "?g (te_task_id t) = t" if "t \<in> set tasks" for t
    using index_lookup [OF dist that] by simp
  have total: "\<forall>k \<in> set ordered. map_of ?index k \<noteq> None"
    using s index_None [OF dist] by simp
  from order map_filter_total [OF total] have o: "order = map ?g ordered" by simp
  have task: "?g k \<in> set tasks \<and> te_task_id (?g k) = k" if "k \<in> set ordered" for k
  proof -
    from that s obtain t where "t \<in> set tasks" and "te_task_id t = k"
      by (auto simp: task_ids_def)
    with g [of t] show ?thesis by auto
  qed
  have 1: "map te_task_id order = ordered"
    unfolding o using task by (simp add: map_idI comp_def)
  from d dist s have "mset ordered = mset (task_ids tasks)"
    by (simp add: set_eq_iff_mset_eq_distinct)
  then have "mset (map ?g ordered) = mset (map ?g (task_ids tasks))"
    by (metis mset_map)
  also have "map ?g (task_ids tasks) = tasks"
    using g by (simp add: task_ids_def comp_def map_idI)
  finally have 2: "mset order = mset tasks"
    by (simp add: o)
  have 3: "te_deps (order ! i) = deps_of tasks (ordered ! i)" if "i < length order" for i
  proof -
    from that o have i: "i < length ordered" by simp
    then have k: "ordered ! i \<in> set ordered" by simp
    from task [OF k] deps_of_task [OF dist, of "?g (ordered ! i)"]
    have "deps_of tasks (ordered ! i) = te_deps (?g (ordered ! i))" by simp
    with i o show ?thesis by simp
  qed
  from 1 2 3 show ?thesis by blast
qed


lemma nth_not_in_take:
  "distinct xs \<Longrightarrow> n < length xs \<Longrightarrow> xs ! n \<notin> set (take n xs)"
  by (auto simp: in_set_conv_nth nth_eq_iff_index_eq)

lemma least_eligible_unique:
  assumes dist: "distinct (task_ids tasks)"
    and m1: "mset o1 = mset tasks" and m2: "mset o2 = mset tasks"
    and b1: "\<And>i. i < length o1 \<Longrightarrow> set (te_deps (o1 ! i)) \<subseteq> te_task_id ` set (take i o1)"
    and b2: "\<And>i. i < length o2 \<Longrightarrow> set (te_deps (o2 ! i)) \<subseteq> te_task_id ` set (take i o2)"
    and l1: "\<And>i t. i < length o1 \<Longrightarrow> t \<in> set tasks \<Longrightarrow> t \<notin> set (take i o1) \<Longrightarrow>
        set (te_deps t) \<subseteq> te_task_id ` set (take i o1) \<Longrightarrow> te_task_id (o1 ! i) \<le> te_task_id t"
    and l2: "\<And>i t. i < length o2 \<Longrightarrow> t \<in> set tasks \<Longrightarrow> t \<notin> set (take i o2) \<Longrightarrow>
        set (te_deps t) \<subseteq> te_task_id ` set (take i o2) \<Longrightarrow> te_task_id (o2 ! i) \<le> te_task_id t"
  shows "o1 = o2"
proof -
  from dist have dt: "distinct tasks" and inj: "inj_on te_task_id (set tasks)"
    by (simp_all add: task_ids_def distinct_map)
  from m1 m2 have len: "length o1 = length tasks" "length o2 = length tasks"
    by (metis size_mset)+
  from m1 m2 have sets: "set o1 = set tasks" "set o2 = set tasks"
    by (metis set_mset_mset)+
  from m1 m2 dt have d1: "distinct o1" and d2: "distinct o2"
    by (metis mset_eq_imp_distinct_iff)+
  have "n \<le> length tasks \<Longrightarrow> take n o1 = take n o2" for n
  proof (induction n)
    case 0
    show ?case by simp
  next
    case (Suc n)
    then have n: "n < length o1" "n < length o2" and eq: "take n o1 = take n o2"
      using len by simp_all
    let ?x = "o1 ! n" and ?y = "o2 ! n"
    from n sets have x: "?x \<in> set tasks" and y: "?y \<in> set tasks"
      by (metis nth_mem)+
    from nth_not_in_take [OF d1 n(1)] eq have "?x \<notin> set (take n o2)" by simp
    moreover from b1 [OF n(1)] eq have "set (te_deps ?x) \<subseteq> te_task_id ` set (take n o2)" by simp
    ultimately have yx: "te_task_id ?y \<le> te_task_id ?x"
      using l2 [OF n(2) x] by blast
    from nth_not_in_take [OF d2 n(2)] eq have "?y \<notin> set (take n o1)" by simp
    moreover from b2 [OF n(2)] eq have "set (te_deps ?y) \<subseteq> te_task_id ` set (take n o1)" by simp
    ultimately have xy: "te_task_id ?x \<le> te_task_id ?y"
      using l1 [OF n(1) y] by blast
    from xy yx have "te_task_id ?x = te_task_id ?y" by simp
    with inj x y have "?x = ?y" by (simp add: inj_on_def)
    with eq n show ?case
      by (simp add: take_Suc_conv_app_nth)
  qed
  from this [of "length tasks"] len show ?thesis by simp
qed

lemma dep_edges_set: "set tasks' = set tasks \<Longrightarrow> dep_edges tasks' = dep_edges tasks"
  by (auto simp: dep_edges_def)

lemma schedule_exists:
  assumes dist: "distinct (task_ids tasks)"
    and known: "\<forall>t \<in> set tasks. set (te_deps t) \<subseteq> set (task_ids tasks)"
    and acyc: "acyclic (dep_edges tasks)"
  shows "\<exists>order. topologically_sort tasks = Inr order \<and> mset order = mset tasks
    \<and> (\<forall>i < length order. set (te_deps (order ! i)) \<subseteq> te_task_id ` set (take i order))
    \<and> (\<forall>i < length order. \<forall>t \<in> set tasks.
          t \<notin> set (take i order) \<and> set (te_deps t) \<subseteq> te_task_id ` set (take i order)
          \<longrightarrow> te_task_id (order ! i) \<le> te_task_id t)"
proof -
  from topologically_sort_run [OF dist known] obtain indeg ordered
    where inv: "kahn_inv tasks indeg [] ordered"
      and res: "topologically_sort tasks =
        (if length ordered \<noteq> length tasks
         then Inl (Cyclic_dependencies (map fst (filter (\<lambda>(k, d). 0 < d) indeg)))
         else Inr (List.map_filter (map_of (dict_of_tasks (\<lambda>t. t) tasks)) ordered))"
    by blast
  let ?order = "List.map_filter (map_of (dict_of_tasks (\<lambda>t. t) tasks)) ordered"
  from acyclic_complete [OF inv known acyc] have all: "set ordered = set (task_ids tasks)" .
  with ordered_complete_iff [OF inv dist] res have 0: "topologically_sort tasks = Inr ?order"
    by simp
  from inv have d: "distinct ordered"
    and before: "\<And>i. i < length ordered \<Longrightarrow>
        set (deps_of tasks (ordered ! i)) \<subseteq> set (take i ordered)"
    and least: "\<And>i k. i < length ordered \<Longrightarrow> k \<in> set (task_ids tasks) \<Longrightarrow>
        k \<notin> set (take i ordered) \<Longrightarrow> set (deps_of tasks k) \<subseteq> set (take i ordered)
        \<Longrightarrow> ordered ! i \<le> k"
    unfolding kahn_inv_def by simp_all
  from order_of_ids [OF dist d all refl]
  have ids: "map te_task_id ?order = ordered" and 1: "mset ?order = mset tasks"
    and deps: "\<And>i. i < length ?order \<Longrightarrow> te_deps (?order ! i) = deps_of tasks (ordered ! i)"
    by blast+
  from ids have len: "length ?order = length ordered"
    by (metis length_map)
  have pre: "te_task_id ` set (take i ?order) = set (take i ordered)" for i
    using ids by (metis set_map take_map)
  have nth: "te_task_id (?order ! i) = ordered ! i" if "i < length ?order" for i
    using ids that by (metis nth_map)
  have 2: "set (te_deps (?order ! i)) \<subseteq> te_task_id ` set (take i ?order)" if "i < length ?order" for i
    using before [of i] deps [OF that] that len by (simp add: pre)
  have 3: "te_task_id (?order ! i) \<le> te_task_id t"
    if i: "i < length ?order" and t: "t \<in> set tasks" and new: "t \<notin> set (take i ?order)"
      and el: "set (te_deps t) \<subseteq> te_task_id ` set (take i ?order)" for i t
  proof -
    from t have id: "te_task_id t \<in> set (task_ids tasks)" by (simp add: task_ids_def)
    have "te_task_id t \<notin> set (take i ordered)"
    proof
      assume "te_task_id t \<in> set (take i ordered)"
      with pre [of i] obtain u where u: "u \<in> set (take i ?order)" and "te_task_id u = te_task_id t"
        by (metis imageE)
      moreover from u 1 have "u \<in> set tasks"
        by (metis in_set_takeD set_mset_mset)
      moreover from dist have "inj_on te_task_id (set tasks)"
        by (simp add: task_ids_def distinct_map)
      ultimately have "u = t" using t by (simp add: inj_on_def)
      with u new show False by simp
    qed
    moreover from el have "set (deps_of tasks (te_task_id t)) \<subseteq> set (take i ordered)"
      by (simp add: deps_of_task [OF dist t] pre)
    ultimately have "ordered ! i \<le> te_task_id t"
      using least [of i "te_task_id t"] i len id by simp
    with nth [OF i] show ?thesis by simp
  qed
  from 0 1 2 3 show ?thesis by blast
qed

text \<open>
  Claim C6. For a task list with unique identifiers, every dependency naming a task of
  the list, and an acyclic dependency graph, the result is a list of tasks that holds
  every task exactly once; the dependencies of each task stand before it; at each
  position stands, of all the tasks not yet placed whose dependencies are all placed,
  the one with the least identifier; and the result is the same for every list that
  holds the same tasks, in whatever order they are listed.
\<close>

theorem schedule_acyclic:
  assumes "distinct (task_ids tasks)"
    and "\<forall>t \<in> set tasks. set (te_deps t) \<subseteq> set (task_ids tasks)"
    and "acyclic (dep_edges tasks)"
  shows "\<exists>order. topologically_sort tasks = Inr order \<and> mset order = mset tasks
    \<and> (\<forall>i < length order. set (te_deps (order ! i)) \<subseteq> te_task_id ` set (take i order))
    \<and> (\<forall>i < length order. \<forall>t \<in> set tasks.
          t \<notin> set (take i order) \<and> set (te_deps t) \<subseteq> te_task_id ` set (take i order)
          \<longrightarrow> te_task_id (order ! i) \<le> te_task_id t)
    \<and> (\<forall>tasks'. mset tasks' = mset tasks \<longrightarrow> topologically_sort tasks' = Inr order)"
proof -
  from schedule_exists [OF assms] obtain order
    where 0: "topologically_sort tasks = Inr order" and 1: "mset order = mset tasks"
      and 2: "\<And>i. i < length order \<Longrightarrow>
          set (te_deps (order ! i)) \<subseteq> te_task_id ` set (take i order)"
      and 3: "\<And>i t. i < length order \<Longrightarrow> t \<in> set tasks \<Longrightarrow> t \<notin> set (take i order) \<Longrightarrow>
          set (te_deps t) \<subseteq> te_task_id ` set (take i order)
          \<Longrightarrow> te_task_id (order ! i) \<le> te_task_id t"
    by blast
  have 4: "topologically_sort tasks' = Inr order" if m: "mset tasks' = mset tasks" for tasks'
  proof -
    from m have s: "set tasks' = set tasks" by (metis set_mset_mset)
    from m have "mset (task_ids tasks') = mset (task_ids tasks)"
      by (metis mset_map task_ids_def)
    with assms(1) have dist': "distinct (task_ids tasks')"
      by (metis mset_eq_imp_distinct_iff)
    from s have ids: "set (task_ids tasks') = set (task_ids tasks)"
      by (simp add: task_ids_def)
    from assms(2) s ids have known': "\<forall>t \<in> set tasks'. set (te_deps t) \<subseteq> set (task_ids tasks')"
      by simp
    from assms(3) dep_edges_set [OF s] have acyc': "acyclic (dep_edges tasks')" by simp
    from schedule_exists [OF dist' known' acyc'] obtain order'
      where p0: "topologically_sort tasks' = Inr order'" and p1: "mset order' = mset tasks'"
        and p2: "\<And>i. i < length order' \<Longrightarrow>
            set (te_deps (order' ! i)) \<subseteq> te_task_id ` set (take i order')"
        and p3: "\<And>i t. i < length order' \<Longrightarrow> t \<in> set tasks' \<Longrightarrow> t \<notin> set (take i order') \<Longrightarrow>
            set (te_deps t) \<subseteq> te_task_id ` set (take i order')
            \<Longrightarrow> te_task_id (order' ! i) \<le> te_task_id t"
      by blast
    have "order' = order"
    proof (rule least_eligible_unique [OF assms(1)])
      show "mset order' = mset tasks" using p1 m by simp
      show "mset order = mset tasks" by (rule 1)
    qed (use 2 3 p2 p3 s in auto)
    with p0 show ?thesis by simp
  qed
  from 0 1 2 3 4 show ?thesis by blast
qed

lemma acyclic_by_rank:
  fixes f :: "'a \<Rightarrow> nat"
  assumes "\<And>a b. (a, b) \<in> r \<Longrightarrow> f a < f b"
  shows "acyclic r"
proof -
  from assms have "r \<subseteq> inv_image less_than f" by auto
  moreover have "wf (inv_image less_than f)" by simp
  ultimately show ?thesis by (meson wf_subset wf_acyclic)
qed

lemma backlog_edges:
  "dep_edges backlog =
     {(''T-003'', ''T-001''), (''T-001'', ''T-004''), (''T-002'', ''T-004'')}"
  by (simp add: dep_edges_def backlog_def backlog_entry_def)

lemma backlog_acyclic: "acyclic (dep_edges backlog)"
  unfolding backlog_edges
  by (rule acyclic_by_rank [where f = "\<lambda>k. if k = ''T-004'' then 2 else if k = ''T-001'' then 1 else 0"])
     auto

lemma backlog_run:
  "topologically_sort backlog =
     Inr [backlog_entry ''T-002'' [], backlog_entry ''T-003'' [],
          backlog_entry ''T-001'' [''T-003''], backlog_entry ''T-004'' [''T-001'', ''T-002'']]"
  by (simp add: topologically_sort_def backlog_def backlog_entry_def dict_of_tasks_def
      neighbours_def List.map_filter_def)



theorem schedule_acyclic_witness:
  "distinct (task_ids backlog) \<and> acyclic (dep_edges backlog)
   \<and> (\<exists>order. topologically_sort backlog = Inr order
        \<and> map te_task_id order = [''T-002'', ''T-003'', ''T-001'', ''T-004'']
        \<and> topologically_sort (rev backlog) = Inr order)"
proof -
  have d: "distinct (task_ids backlog)"
    by (simp add: task_ids_def backlog_def backlog_entry_def)
  have k: "\<forall>t \<in> set backlog. set (te_deps t) \<subseteq> set (task_ids backlog)"
    by (simp add: task_ids_def backlog_def backlog_entry_def)
  from schedule_acyclic [OF d k backlog_acyclic] obtain order
    where run: "topologically_sort backlog = Inr order"
      and same: "\<forall>tasks'. mset tasks' = mset backlog \<longrightarrow> topologically_sort tasks' = Inr order"
    by blast
  from same have "topologically_sort (rev backlog) = Inr order" by simp
  moreover from run have "Inr order = topologically_sort backlog" by simp
  then have "map te_task_id order = [''T-002'', ''T-003'', ''T-001'', ''T-004'']"
    by (simp add: backlog_run backlog_entry_def)
  ultimately show ?thesis using d backlog_acyclic run by simp
qed




end
